theory Spec2Isabelle
  imports Main "HOL-Library.Sublist"
begin

text \<open>
  The reactivity engine of the repository: \<open>effect.ts\<close> (\<open>ReactiveEffect\<close>,
  \<open>effect\<close>, \<open>track\<close>, \<open>trigger\<close>, \<open>cleanupEffect\<close>) and \<open>reactive.ts\<close>
  (\<open>reactive\<close> with the \<open>get\<close> and \<open>set\<close> handlers of its Proxy). The calls of
  \<open>console.log\<close> are left out: they print and do not call back into the engine.
\<close>

section \<open>Values, user computations and the engine state\<close>

text \<open>
  JavaScript values as far as the engine looks at them. A raw object is \<open>Obj t\<close> with
  identity \<open>t\<close>; the Proxy created by \<open>reactive\<close> is \<open>Prx p t\<close>: its own identity
  \<open>p\<close> and the target \<open>t\<close> it wraps (the Proxy's fixed target slot). \<open>Builtin f\<close> is
  the built-in function named \<open>f\<close>. Numbers are integers plus \<open>NaN\<close>: there is no
  rounding of doubles.

  The raw objects are what an object literal creates: ordinary extensible objects with
  writable data properties of their own, whose prototype is \<open>Object.prototype\<close>.
\<close>

datatype val =
  Undefined | Null | Bool bool | Num int | NaN | Str string | Obj nat | Prx nat nat
  | Builtin string

text \<open>\<open>a === b\<close> and JavaScript truthiness (\<open>!x\<close>, \<open>if (x)\<close>).\<close>

definition strict_eq :: "val \<Rightarrow> val \<Rightarrow> bool" where
  "strict_eq a b = (a = b \<and> a \<noteq> NaN)"

fun truthy :: "val \<Rightarrow> bool" where
  "truthy Undefined = False"
| "truthy Null = False"
| "truthy (Bool b) = b"
| "truthy (Num i) = (i \<noteq> 0)"
| "truthy NaN = False"
| "truthy (Str s) = (s \<noteq> [])"
| "truthy (Obj t) = True"
| "truthy (Prx p t) = True"
| "truthy (Builtin f) = True"

text \<open>
  \<open>typeof x === 'object'\<close>, which holds of \<open>null\<close> too and does not hold of a function.
\<close>

fun typeof_object :: "val \<Rightarrow> bool" where
  "typeof_object Null = True"
| "typeof_object (Obj t) = True"
| "typeof_object (Prx p t) = True"
| "typeof_object v = False"

text \<open>
  The functions users hand to the engine (\<open>fn\<close>, \<open>scheduler\<close>) are arbitrary code that
  calls back into the engine. Such a computation is the tree of its engine calls: each node is
  one call, and the continuation receives what the call returned.
\<close>

datatype prog =
    Ret val
  | Throw val
  | NewObj "(string \<times> val) list" "val \<Rightarrow> prog"
  | Get val string "val \<Rightarrow> prog"
  | Put val string val prog
  | Reactive val "val \<Rightarrow> prog"
  | Effect prog "nat \<Rightarrow> prog"
  | NewEffect prog "prog option" "nat \<Rightarrow> prog"
  | Run nat "val \<Rightarrow> prog"
  | Stop nat prog

text \<open>class \<open>ReactiveEffect\<close>; \<open>deps\<close> holds the identities of the \<open>Set\<close>s it was added to.\<close>

record reactive_effect =
  active :: bool
  deps :: "nat list"
  fn :: prog
  scheduler :: "prog option"

text \<open>
  The module state. \<open>targetMap\<close>, \<open>activeEffect\<close> and \<open>reactiveMap\<close> are the module
  variables of the source. \<open>sets\<close> is the store of the \<open>Set\<close> objects (type \<open>Dep\<close>),
  which are shared between \<open>targetMap\<close> and the effects' \<open>deps\<close> arrays: a set is a list
  without duplicates in insertion order, as \<open>forEach\<close> visits it. \<open>effects\<close> is the
  store of the \<open>ReactiveEffect\<close> instances, \<open>heap\<close> the properties of the raw objects.
\<close>

record state =
  heap :: "nat \<Rightarrow> string \<rightharpoonup> val"
  nobj :: nat
  reactiveMap :: "nat \<rightharpoonup> nat"
  nprx :: nat
  targetMap :: "nat \<rightharpoonup> (string \<rightharpoonup> nat)"
  sets :: "nat \<Rightarrow> nat list"
  nsets :: nat
  effects :: "reactive_effect list"
  activeEffect :: "nat option"

definition init :: state where
  "init = \<lparr>heap = (\<lambda>t. Map.empty), nobj = 0, reactiveMap = Map.empty, nprx = 0,
            targetMap = Map.empty, sets = (\<lambda>d. []), nsets = 0, effects = [],
            activeEffect = None\<rparr>"

text \<open>
  What a call leaves behind: it returned a value or threw one. Besides the new state every
  engine call reports the subscribers that \<open>trigger\<close> invoked, as a forest: a node is one
  invocation by \<open>forEach\<close>, its children are the invocations that happened inside it.
\<close>

datatype res = Ok val | Exn val

datatype kind = Ran | Scheduled

datatype call = Call kind nat "call list"

type_synonym result = "(res \<times> state \<times> call list) option"

definition TypeError :: val where
  "TypeError = Str ''TypeError''"

section \<open>effect.ts: track, cleanupEffect, stop\<close>


definition object_prototype :: "string \<rightharpoonup> val" where
  "object_prototype =
     map_of (map (\<lambda>f. (f, Builtin f))
       [''constructor'', ''hasOwnProperty'', ''isPrototypeOf'', ''propertyIsEnumerable'',
        ''toLocaleString'', ''toString'', ''valueOf'', ''__defineGetter__'',
        ''__defineSetter__'', ''__lookupGetter__'', ''__lookupSetter__''])"

text \<open>
  \<open>target[key]\<close> on a raw object, and \<open>Reflect.get\<close>: the object's own property, else
  the one it inherits, else \<open>undefined\<close>.
\<close>

definition read_prop :: "state \<Rightarrow> nat \<Rightarrow> string \<Rightarrow> val" where
  "read_prop s t k =
     (case heap s t k of
        Some v \<Rightarrow> v
      | None \<Rightarrow> (case object_prototype k of Some v \<Rightarrow> v | None \<Rightarrow> Undefined))"

text \<open>
  \<open>Reflect.set\<close> on a raw object: the value becomes the object's own property (also
  when a property of that name is inherited).
\<close>

definition write_prop :: "nat \<Rightarrow> string \<Rightarrow> val \<Rightarrow> state \<Rightarrow> state" where
  "write_prop t k v s = s\<lparr>heap := (heap s)(t := (heap s t)(k \<mapsto> v))\<rparr>"

text \<open>\<open>track\<close>, lines 68 to 96, step by step.\<close>

definition get_depsMap :: "nat \<Rightarrow> state \<Rightarrow> (string \<rightharpoonup> nat) \<times> state" where
  "get_depsMap t s =
     (case targetMap s t of
        None \<Rightarrow> (Map.empty, s\<lparr>targetMap := (targetMap s)(t \<mapsto> Map.empty)\<rparr>)
      | Some depsMap \<Rightarrow> (depsMap, s))"

definition get_dep :: "nat \<Rightarrow> string \<Rightarrow> (string \<rightharpoonup> nat) \<Rightarrow> state \<Rightarrow> nat \<times> state" where
  "get_dep t k depsMap s =
     (case depsMap k of
        None \<Rightarrow> (nsets s, s\<lparr>targetMap := (targetMap s)(t \<mapsto> depsMap(k \<mapsto> nsets s)),
                              sets := (sets s)(nsets s := []),
                              nsets := Suc (nsets s)\<rparr>)
      | Some dep \<Rightarrow> (dep, s))"

definition add_dep :: "nat \<Rightarrow> nat \<Rightarrow> state \<Rightarrow> state" where
  "add_dep a dep s =
     (if a \<in> set (sets s dep) then s
      else s\<lparr>sets := (sets s)(dep := sets s dep @ [a]),
              effects := (effects s)[a := (effects s ! a)\<lparr>deps := deps (effects s ! a) @ [dep]\<rparr>]\<rparr>)"

definition track :: "nat \<Rightarrow> string \<Rightarrow> state \<Rightarrow> state" where
  "track t k s =
     (case activeEffect s of
        None \<Rightarrow> s
      | Some a \<Rightarrow>
          (let (depsMap, s1) = get_depsMap t s;
               (dep, s2) = get_dep t k depsMap s1
           in add_dep a dep s2))"

text \<open>\<open>cleanupEffect\<close>, lines 126 to 136: \<open>deps[i].delete(effect)\<close> for every \<open>i\<close>.\<close>

definition cleanupEffect :: "nat \<Rightarrow> state \<Rightarrow> state" where
  "cleanupEffect e s =
     (let ds = deps (effects s ! e)
      in if ds \<noteq> []
         then s\<lparr>sets := fold (\<lambda>d st. st(d := removeAll e (st d))) ds (sets s),
                 effects := (effects s)[e := (effects s ! e)\<lparr>deps := []\<rparr>]\<rparr>
         else s)"

text \<open>\<open>ReactiveEffect.stop\<close>, lines 45 to 51, on the instance \<open>e\<close>.\<close>

definition stop :: "nat \<Rightarrow> state \<Rightarrow> state" where
  "stop e s =
     (if active (effects s ! e)
      then cleanupEffect e (s\<lparr>effects := (effects s)[e := (effects s ! e)\<lparr>active := False\<rparr>]\<rparr>)
      else s)"

text \<open>The constructor: \<open>new ReactiveEffect(fn, scheduler)\<close>; the new instance is the last one.\<close>

definition new_effect :: "prog \<Rightarrow> prog option \<Rightarrow> state \<Rightarrow> state" where
  "new_effect f sch s =
     s\<lparr>effects := effects s @ [\<lparr>active = True, deps = [], fn = f, scheduler = sch\<rparr>]\<rparr>"

section \<open>reactive.ts: reactive and the two handlers\<close>

definition IS_REACTIVE :: string where
  "IS_REACTIVE = ''__v_isReactive''"

text \<open>The \<open>get\<close> handler of the Proxy over target \<open>t\<close>, lines 37 to 54.\<close>

definition proxy_get :: "nat \<Rightarrow> string \<Rightarrow> state \<Rightarrow> val \<times> state" where
  "proxy_get t k s =
     (if k = IS_REACTIVE then (Bool True, s)
      else (let s1 = track t k s in (read_prop s1 t k, s1)))"

text \<open>
  \<open>x[k]\<close> for any value \<open>x\<close>: a raw object is read directly, a Proxy through its handler,
  \<open>undefined\<close> and \<open>null\<close> throw. The properties of the other primitives and of the
  built-in functions play no part in the engine; reading one gives \<open>undefined\<close> here.
\<close>

fun get_prop :: "val \<Rightarrow> string \<Rightarrow> state \<Rightarrow> res \<times> state" where
  "get_prop (Obj t) k s = (Ok (read_prop s t k), s)"
| "get_prop (Prx p t) k s = (let (v, s1) = proxy_get t k s in (Ok v, s1))"
| "get_prop Undefined k s = (Exn TypeError, s)"
| "get_prop Null k s = (Exn TypeError, s)"
| "get_prop v k s = (Ok Undefined, s)"

text \<open>\<open>reactive\<close>, lines 15 to 82.\<close>

definition reactive :: "val \<Rightarrow> state \<Rightarrow> val \<times> state" where
  "reactive target s =
     (if \<not> truthy target \<or> \<not> typeof_object target then (target, s)
      else case target of
        Prx p t \<Rightarrow> (target, s)
      | Obj t \<Rightarrow>
          (if truthy (read_prop s t IS_REACTIVE) then (target, s)
           else case reactiveMap s t of
             Some existingProxy \<Rightarrow> (Prx existingProxy t, s)
           | None \<Rightarrow> (Prx (nprx s) t,
                        s\<lparr>reactiveMap := (reactiveMap s)(t \<mapsto> nprx s), nprx := Suc (nprx s)\<rparr>))
      | _ \<Rightarrow> (target, s))"

section \<open>Running computations: run, trigger, the set handler\<close>

text \<open>
  Sequencing of two engine calls: an exception of the first ends the computation, the
  invocations of both are reported in order. \<open>None\<close> is a call that does not return.
\<close>

definition seq :: "result \<Rightarrow> (val \<Rightarrow> state \<Rightarrow> result) \<Rightarrow> result" where
  "seq m f =
     (case m of
        None \<Rightarrow> None
      | Some (Exn x, s, cs) \<Rightarrow> Some (Exn x, s, cs)
      | Some (Ok v, s, cs) \<Rightarrow>
          (case f v s of None \<Rightarrow> None | Some (r, s', cs') \<Rightarrow> Some (r, s', cs @ cs')))"


text \<open>
  The recursion of the engine: \<open>run\<close> calls the user function, whose writes reach
  \<open>trigger\<close> through the \<open>set\<close> handler, and \<open>trigger\<close> calls \<open>run\<close> again. Nothing in
  the source bounds it. So the engine functions below take as their first argument \<open>call\<close>
  the way a user function is called, and \<open>exec\<close> closes the recursion with fuel: one unit
  for every node of a user computation, and \<open>None\<close> when the fuel does not suffice.
\<close>

text \<open>
  \<open>ReactiveEffect.run\<close>, lines 27 to 42: \<open>try\<close>/\<open>finally\<close> assigns
  \<open>activeEffect = undefined\<close> on both exits. Calling a method of something that is not an
  effect throws.
\<close>

definition run :: "(prog \<Rightarrow> state \<Rightarrow> result) \<Rightarrow> nat \<Rightarrow> state \<Rightarrow> result" where
  "run call e s =
     (if \<not> e < length (effects s) then Some (Exn TypeError, s, [])
      else if \<not> active (effects s ! e) then call (fn (effects s ! e)) s
      else case call (fn (effects s ! e)) (s\<lparr>activeEffect := Some e\<rparr>) of
             None \<Rightarrow> None
           | Some (r, s1, cs) \<Rightarrow> Some (r, s1\<lparr>activeEffect := None\<rparr>, cs))"

text \<open>The body of the \<open>forEach\<close> in \<open>trigger\<close>, lines 114 to 121.\<close>

definition invoke :: "(prog \<Rightarrow> state \<Rightarrow> result) \<Rightarrow> nat \<Rightarrow> state \<Rightarrow> result" where
  "invoke call e s =
     (if \<not> e < length (effects s) then Some (Exn TypeError, s, [])
      else case scheduler (effects s ! e) of
             Some sch \<Rightarrow>
               (case call sch s of
                  None \<Rightarrow> None
                | Some (r, s1, cs) \<Rightarrow> Some (r, s1, [Call Scheduled e cs]))
           | None \<Rightarrow>
               (case run call e s of
                  None \<Rightarrow> None
                | Some (r, s1, cs) \<Rightarrow> Some (r, s1, [Call Ran e cs])))"

text \<open>\<open>effects.forEach\<close> over the copy \<open>effects = new Set(dep)\<close>: an exception ends the loop.\<close>

primrec run_effects :: "(prog \<Rightarrow> state \<Rightarrow> result) \<Rightarrow> nat list \<Rightarrow> state \<Rightarrow> result" where
  "run_effects call [] s = Some (Ok Undefined, s, [])"
| "run_effects call (e # es) s = seq (invoke call e s) (\<lambda>_ s1. run_effects call es s1)"

text \<open>\<open>trigger\<close>, lines 99 to 123.\<close>

definition trigger :: "(prog \<Rightarrow> state \<Rightarrow> result) \<Rightarrow> nat \<Rightarrow> string \<Rightarrow> state \<Rightarrow> result" where
  "trigger call t k s =
     (case targetMap s t of
        None \<Rightarrow> Some (Ok Undefined, s, [])
      | Some depsMap \<Rightarrow>
          (case depsMap k of
             None \<Rightarrow> Some (Ok Undefined, s, [])
           | Some dep \<Rightarrow> run_effects call (sets s dep) s))"

text \<open>The \<open>set\<close> handler of the Proxy over target \<open>t\<close>, reactive.ts lines 57 to 75.\<close>

definition proxy_set ::
  "(prog \<Rightarrow> state \<Rightarrow> result) \<Rightarrow> nat \<Rightarrow> string \<Rightarrow> val \<Rightarrow> state \<Rightarrow> result" where
  "proxy_set call t k v s =
     (let oldValue = read_prop s t k;
          s1 = write_prop t k v s
      in if \<not> strict_eq oldValue v
         then seq (trigger call t k s1) (\<lambda>_ s2. Some (Ok (Bool True), s2, []))
         else Some (Ok (Bool True), s1, []))"

text \<open>
  \<open>x[k] = v\<close> for any value \<open>x\<close>: a raw object is written directly, a Proxy through its
  handler; a built-in function accepts the assignment, and the property is not kept here;
  anything else throws (the modules are strict code).
\<close>

fun set_prop ::
  "(prog \<Rightarrow> state \<Rightarrow> result) \<Rightarrow> val \<Rightarrow> string \<Rightarrow> val \<Rightarrow> state \<Rightarrow> result" where
  "set_prop call (Obj t) k v s = Some (Ok v, write_prop t k v s, [])"
| "set_prop call (Prx p t) k v s = proxy_set call t k v s"
| "set_prop call (Builtin f) k v s = Some (Ok v, s, [])"
| "set_prop call x k v s = Some (Exn TypeError, s, [])"

text \<open>
  One node of a user computation. \<open>NewObj ps c\<close> is an object literal (a later
  duplicate of a key wins). \<open>Effect f c\<close> is \<open>effect(f)\<close>, lines 55 to 65: it
  constructs the instance, runs it once and hands the runner to the rest of the computation;
  \<open>Run e c\<close> calls the runner, \<open>Stop e c\<close> calls \<open>runner.effect.stop()\<close>.
\<close>

fun exec_node :: "(prog \<Rightarrow> state \<Rightarrow> result) \<Rightarrow> prog \<Rightarrow> state \<Rightarrow> result" where
  "exec_node call (Ret v) s = Some (Ok v, s, [])"
| "exec_node call (Throw v) s = Some (Exn v, s, [])"
| "exec_node call (NewObj ps c) s =
     call (c (Obj (nobj s)))
       (s\<lparr>heap := (heap s)(nobj s := map_of (rev ps)), nobj := Suc (nobj s)\<rparr>)"
| "exec_node call (Get x k c) s =
     (case get_prop x k s of
        (Exn err, s1) \<Rightarrow> Some (Exn err, s1, [])
      | (Ok v, s1) \<Rightarrow> call (c v) s1)"
| "exec_node call (Put x k v c) s = seq (set_prop call x k v s) (\<lambda>_ s1. call c s1)"
| "exec_node call (Reactive x c) s = (case reactive x s of (v, s1) \<Rightarrow> call (c v) s1)"
| "exec_node call (Effect f c) s =
     seq (run call (length (effects s)) (new_effect f None s))
         (\<lambda>_ s1. call (c (length (effects s))) s1)"
| "exec_node call (NewEffect f sch c) s = call (c (length (effects s))) (new_effect f sch s)"
| "exec_node call (Run e c) s = seq (run call e s) (\<lambda>v s1. call (c v) s1)"
| "exec_node call (Stop e c) s =
     (if e < length (effects s) then call c (stop e s) else Some (Exn TypeError, s, []))"

primrec exec :: "nat \<Rightarrow> prog \<Rightarrow> state \<Rightarrow> result" where
  "exec 0 = (\<lambda>p s. None)"
| "exec (Suc n) = exec_node (exec n)"

section \<open>Invocation forests, subscribers and invariants of the state\<close>

fun call_id :: "call \<Rightarrow> nat" where
  "call_id (Call kd e cs) = e"

fun call_kind :: "call \<Rightarrow> kind" where
  "call_kind (Call kd e cs) = kd"

text \<open>Every effect that occurs in an invocation forest, at any depth.\<close>

primrec ids :: "call \<Rightarrow> nat set" where
  "ids (Call kd e cs) = insert e (\<Union> (set (map ids cs)))"

definition forest_ids :: "call list \<Rightarrow> nat set" where
  "forest_ids cs = \<Union> (set (map ids cs))"

text \<open>
  The dependency set of \<open>(t, k)\<close>, as \<open>trigger\<close> looks it up: its members in insertion
  order, and no members when \<open>targetMap\<close> has no entry.
\<close>

definition subscribers :: "state \<Rightarrow> nat \<Rightarrow> string \<Rightarrow> nat list" where
  "subscribers s t k =
     (case targetMap s t of
        None \<Rightarrow> []
      | Some depsMap \<Rightarrow> (case depsMap k of None \<Rightarrow> [] | Some dep \<Rightarrow> sets s dep))"

definition dep_of :: "state \<Rightarrow> nat \<Rightarrow> string \<Rightarrow> nat option" where
  "dep_of s t k = (case targetMap s t of None \<Rightarrow> None | Some depsMap \<Rightarrow> depsMap k)"

text \<open>How \<open>trigger\<close> invokes effect \<open>e\<close>: through its scheduler when it has one.\<close>

definition kind_of :: "reactive_effect list \<Rightarrow> nat \<Rightarrow> kind" where
  "kind_of es e = (case scheduler (es ! e) of None \<Rightarrow> Ran | Some sch \<Rightarrow> Scheduled)"

text \<open>
  A property \<open>P\<close> of states together with a set \<open>A\<close> of effects is \<open>preserved\<close> when every
  elementary step of the engine keeps \<open>P\<close> and every member of a dependency set of a
  \<open>P\<close>-state is in \<open>A\<close>. The steps are: a change that leaves the graph, the effects and
  the slot alone (\<open>same_graph\<close>), \<open>track\<close>, the constructor, \<open>stop\<close>, and the two
  assignments to \<open>activeEffect\<close> in \<open>run\<close>.
\<close>

definition same_graph :: "state \<Rightarrow> state \<Rightarrow> bool" where
  "same_graph s s' \<longleftrightarrow>
     targetMap s' = targetMap s \<and> sets s' = sets s \<and> nsets s' = nsets s
     \<and> effects s' = effects s \<and> activeEffect s' = activeEffect s"

definition preserved :: "(state \<Rightarrow> bool) \<Rightarrow> nat set \<Rightarrow> bool" where
  "preserved P A \<longleftrightarrow>
     (\<forall>s s'. P s \<longrightarrow> same_graph s s' \<longrightarrow> P s')
     \<and> (\<forall>s t k. P s \<longrightarrow> P (track t k s))
     \<and> (\<forall>s f sch. P s \<longrightarrow> P (new_effect f sch s))
     \<and> (\<forall>s e. P s \<longrightarrow> e < length (effects s) \<longrightarrow> P (stop e s))
     \<and> (\<forall>s e. P s \<longrightarrow> e < length (effects s) \<longrightarrow> active (effects s ! e)
            \<longrightarrow> P (s\<lparr>activeEffect := Some e\<rparr>))
     \<and> (\<forall>s. P s \<longrightarrow> P (s\<lparr>activeEffect := None\<rparr>))
     \<and> (\<forall>s d x. P s \<longrightarrow> x \<in> set (sets s d) \<longrightarrow> x \<in> A)"

text \<open>
  A result is \<open>ok\<close> when, if the call completed, its final state has \<open>P\<close> and it invoked
  only effects of \<open>A\<close>; a way of calling user functions is \<open>good\<close> when it gives ok
  results from \<open>P\<close>-states.
\<close>

definition ok :: "(state \<Rightarrow> bool) \<Rightarrow> nat set \<Rightarrow> result \<Rightarrow> bool" where
  "ok P A m \<longleftrightarrow> (\<forall>r s' cs. m = Some (r, s', cs) \<longrightarrow> P s' \<and> forest_ids cs \<subseteq> A)"

definition good :: "(state \<Rightarrow> bool) \<Rightarrow> nat set \<Rightarrow> (prog \<Rightarrow> state \<Rightarrow> result) \<Rightarrow> bool" where
  "good P A call \<longleftrightarrow> (\<forall>p s. P s \<longrightarrow> ok P A (call p s))"

text \<open>
  The two directions of the link between sets and effects agree as far as cleanup needs
  it: a member of a set is an effect, and that set is in the effect's \<open>deps\<close>. The slot
  holds an effect if it holds anything, and \<open>targetMap\<close> holds sets that were created.
\<close>

definition consistent :: "state \<Rightarrow> bool" where
  "consistent s \<longleftrightarrow>
     (\<forall>d x. x \<in> set (sets s d) \<longrightarrow> x < length (effects s) \<and> d \<in> set (deps (effects s ! x)))
     \<and> (\<forall>a. activeEffect s = Some a \<longrightarrow> a < length (effects s))
     \<and> (\<forall>t k d. dep_of s t k = Some d \<longrightarrow> d < nsets s)"

text \<open>Effect \<open>e\<close> is stopped, is not the running effect, and is in no dependency set.\<close>

definition stopped :: "nat \<Rightarrow> state \<Rightarrow> bool" where
  "stopped e s \<longleftrightarrow>
     e < length (effects s) \<and> \<not> active (effects s ! e) \<and> activeEffect s \<noteq> Some e
     \<and> (\<forall>d. e \<notin> set (sets s d))"

text \<open>
  The set \<open>d\<close> is the dependency set of \<open>(t, k)\<close>, and effect \<open>e\<close> is a member of it
  as long as it is active.
\<close>

definition subscribed :: "nat \<Rightarrow> nat \<Rightarrow> string \<Rightarrow> nat \<Rightarrow> state \<Rightarrow> bool" where
  "subscribed e t k d s \<longleftrightarrow>
     dep_of s t k = Some d \<and> d < nsets s \<and> e < length (effects s)
     \<and> (active (effects s ! e) \<longrightarrow> e \<in> set (sets s d))"

text \<open>The effects \<open>es\<close> still exist, with the user function and scheduler they had.\<close>

definition frozen :: "reactive_effect list \<Rightarrow> state \<Rightarrow> bool" where
  "frozen es s \<longleftrightarrow>
     length es \<le> length (effects s)
     \<and> (\<forall>e<length es. fn (effects s ! e) = fn (es ! e)
                      \<and> scheduler (effects s ! e) = scheduler (es ! e))"

text \<open>
  One way of calling user functions returns whatever another one returns: more fuel does
  not change a result.
\<close>

definition le_call :: "(prog \<Rightarrow> state \<Rightarrow> result) \<Rightarrow> (prog \<Rightarrow> state \<Rightarrow> result) \<Rightarrow> bool" where
  "le_call c c' \<longleftrightarrow> (\<forall>p s x. c p s = Some x \<longrightarrow> c' p s = Some x)"

text \<open>
  \<open>notify\<close> in the words of the specification (4.1), to be compared with \<open>trigger\<close>. One
  subscriber of the snapshot: if it carries a scheduler callback the scheduler is invoked
  instead of running the computation, otherwise the computation is run.
\<close>

definition notify_visit :: "nat \<Rightarrow> nat \<Rightarrow> state \<Rightarrow> result" where
  "notify_visit n e s =
     (case scheduler (effects s ! e) of
        Some sch \<Rightarrow> exec n sch s
      | None \<Rightarrow> run (exec n) e s)"

text \<open>
  The iteration over the snapshot \<open>es\<close>, from state \<open>s\<close>: the subscribers are visited in
  order, each in the state the one before it left. The iteration ends with the snapshot
  (\<open>finished\<close>), or at the first visit that throws (\<open>thrown\<close>): then the exception is
  the result of the iteration and the subscribers after the thrower are not visited. The
  last argument lists the visits made, each with the invocations that happened inside it.
\<close>

inductive notify_iteration ::
  "nat \<Rightarrow> nat list \<Rightarrow> state \<Rightarrow> res \<Rightarrow> state \<Rightarrow> call list \<Rightarrow> bool" for n :: nat where
  finished: "notify_iteration n [] s (Ok Undefined) s []"
| thrown:
    "notify_visit n e s = Some (Exn x, s1, sub) \<Longrightarrow>
     notify_iteration n (e # es) s (Exn x) s1 [Call (kind_of (effects s) e) e sub]"
| visited:
    "notify_visit n e s = Some (Ok v, s1, sub) \<Longrightarrow> notify_iteration n es s1 r s' cs \<Longrightarrow>
     notify_iteration n (e # es) s r s' (Call (kind_of (effects s) e) e sub # cs)"

section \<open>Observations and scenarios\<close>

text \<open>What a call returned and which subscribers were invoked; the state it left.\<close>

definition outcome :: "result \<Rightarrow> (res \<times> call list) option" where
  "outcome m = map_option (\<lambda>(r, s, cs). (r, cs)) m"

definition final :: "result \<Rightarrow> state" where
  "final m = fst (snd (the m))"

text \<open>
  The state of the test suite's first lines: one raw object \<open>{count: 0}\<close> with identity
  \<open>0\<close>; its Proxy is \<open>Prx 0 0\<close>.
\<close>

definition count_obj :: state where
  "count_obj = write_prop 0 ''count'' (Num 0) init"

definition read_count :: prog where
  "read_count = Get (Prx 0 0) ''count'' (\<lambda>v. Ret v)"

definition throw_after_read :: prog where
  "throw_after_read = Get (Prx 0 0) ''count'' (\<lambda>v. Throw (Str ''boom''))"

text \<open>
  Three effects constructed and not yet run, seen from inside the run of effect \<open>0\<close>
  (\<open>activeEffect\<close> is effect \<open>0\<close>), at the moment its body is about to run another one.
\<close>

definition nested_state :: state where
  "nested_state =
     (new_effect throw_after_read None
       (new_effect read_count None
         (new_effect (Ret Undefined) None count_obj)))\<lparr>activeEffect := Some 0\<rparr>"

text \<open>
  \<open>const o = {count: 0}; const p = reactive(o);
  effect(() => { effect(() => {}); return p.count })\<close>
\<close>

definition nested_prog :: prog where
  "nested_prog =
     NewObj [(''count'', Num 0)] (\<lambda>ob. Reactive ob (\<lambda>p.
       Effect (Effect (Ret Undefined) (\<lambda>_. Get p ''count'' (\<lambda>v. Ret v)))
              (\<lambda>_. Ret Undefined)))"

text \<open>
  \<open>const p = reactive({flag: true, a: 1, b: 2});
  effect(() => p.flag ? p.a : p.b)\<close>, followed by \<open>rest\<close>.
\<close>

definition branch_fn :: "val \<Rightarrow> prog" where
  "branch_fn p =
     Get p ''flag'' (\<lambda>f. if truthy f then Get p ''a'' (\<lambda>v. Ret v) else Get p ''b'' (\<lambda>v. Ret v))"

definition branch_setup :: "(val \<Rightarrow> prog) \<Rightarrow> prog" where
  "branch_setup rest =
     NewObj [(''flag'', Bool True), (''a'', Num 1), (''b'', Num 2)] (\<lambda>ob. Reactive ob (\<lambda>p.
       Effect (branch_fn p) (\<lambda>_. rest p)))"

text \<open>The state after the registration, and with \<open>flag\<close> set to false on the raw object.\<close>

definition branch_state :: state where
  "branch_state = final (exec 6 (branch_setup (\<lambda>p. Ret Undefined)) init)"

definition branch_state2 :: state where
  "branch_state2 = write_prop 0 ''flag'' (Bool False) branch_state"

text \<open>\<open>p.flag = false\<close> makes the second run; \<open>p.a = 7\<close> writes the key it no longer reads.\<close>

definition branch_prog :: prog where
  "branch_prog =
     branch_setup (\<lambda>p. Put p ''flag'' (Bool False) (Put p ''a'' (Num 7) (Ret Undefined)))"

text \<open>
  \<open>const p = reactive({count: 0}); effect(() => p.count)\<close>, followed by \<open>rest\<close>: the
  test \<open>should be reactive\<close>.
\<close>

definition count_setup :: "(val \<Rightarrow> prog) \<Rightarrow> prog" where
  "count_setup rest =
     NewObj [(''count'', Num 0)] (\<lambda>ob. Reactive ob (\<lambda>p.
       Effect (Get p ''count'' (\<lambda>v. Ret v)) (\<lambda>_. rest p)))"

definition count_state :: state where
  "count_state = final (exec 5 (count_setup (\<lambda>p. Ret Undefined)) init)"

definition write_count :: "int \<Rightarrow> prog" where
  "write_count i = Put (Prx 0 0) ''count'' (Num i) (Ret Undefined)"

text \<open>
  \<open>const r = effect(() => { if (p.count !== 0) r.effect.stop(); return p.count })\<close>:
  the effect stops itself in a later run and reads on. \<open>self_stop_state\<close> is the state
  after \<open>p.count = 1\<close>, which made that run.
\<close>

definition self_stop_setup :: "(val \<Rightarrow> prog) \<Rightarrow> prog" where
  "self_stop_setup rest =
     NewObj [(''count'', Num 0)] (\<lambda>ob. Reactive ob (\<lambda>p.
       Effect (Get p ''count'' (\<lambda>v.
                 if v = Num 0 then Ret v else Stop 0 (Get p ''count'' (\<lambda>w. Ret w))))
              (\<lambda>_. rest p)))"

definition self_stop_prog :: prog where
  "self_stop_prog = self_stop_setup (\<lambda>p. Put p ''count'' (Num 1) (Ret Undefined))"

definition self_stop_state :: state where
  "self_stop_state = final (exec 12 self_stop_prog init)"

text \<open>
  \<open>x++\<close> stores \<open>ToNumber(x) + 1\<close>, for the values that the computations here
  increment: numbers, \<open>null\<close> and booleans, and \<open>NaN\<close> for \<open>undefined\<close>, \<open>NaN\<close>,
  objects and functions. Strings are not converted (\<open>'5'++\<close> is not \<open>6\<close> here), and
  the sum is exact where doubles round, from \<open>2^53\<close> on.
\<close>

fun incr :: "val \<Rightarrow> val" where
  "incr (Num i) = Num (i + 1)"
| "incr Null = Num 1"
| "incr (Bool b) = Num (if b then 2 else 1)"
| "incr v = NaN"

text \<open>
  \<open>const p = reactive({count: 0}); effect(() => { p.count++ })\<close>: the effect reads a
  key and writes a different value to it.
\<close>

definition loop_fn :: "val \<Rightarrow> prog" where
  "loop_fn p = Get p ''count'' (\<lambda>v. Put p ''count'' (incr v) (Ret Undefined))"

definition loop_prog :: prog where
  "loop_prog =
     NewObj [(''count'', Num 0)] (\<lambda>ob. Reactive ob (\<lambda>p.
       Effect (loop_fn p) (\<lambda>_. Ret Undefined)))"

text \<open>
  The states in which that effect, effect \<open>0\<close>, runs: it is active and has no scheduler,
  \<open>count\<close> holds a number, and the dependency set of \<open>count\<close>, once created, has
  effect \<open>0\<close> as its only member.
\<close>

definition loop_inv :: "state \<Rightarrow> bool" where
  "loop_inv s \<longleftrightarrow>
     0 < length (effects s) \<and> active (effects s ! 0) \<and> scheduler (effects s ! 0) = None
     \<and> fn (effects s ! 0) = loop_fn (Prx 0 0)
     \<and> (\<exists>i. heap s 0 ''count'' = Some (Num i))
     \<and> (case dep_of s 0 ''count'' of None \<Rightarrow> True | Some d \<Rightarrow> sets s d = [0])"



text \<open>
  Three subscribers of \<open>count\<close>. When effect \<open>0\<close> runs again it stops effect \<open>1\<close> and
  registers a new effect that reads \<open>count\<close>; effect \<open>2\<close> has a scheduler.
\<close>

definition mutate_setup :: "(val \<Rightarrow> prog) \<Rightarrow> prog" where
  "mutate_setup rest =
     NewObj [(''count'', Num 0)] (\<lambda>ob. Reactive ob (\<lambda>p.
       Effect (Get p ''count'' (\<lambda>v.
                 if v = Num 0 then Ret v
                 else Stop 1 (Effect (Get p ''count'' (\<lambda>w. Ret w)) (\<lambda>_. Ret v))))
         (\<lambda>_. Effect (Get p ''count'' (\<lambda>v. Ret v))
           (\<lambda>_. NewEffect (Get p ''count'' (\<lambda>v. Ret v)) (Some (Ret Undefined))
             (\<lambda>e. Run e (\<lambda>_. rest p))))))"

definition mutate_state :: state where
  "mutate_state = final (exec 12 (mutate_setup (\<lambda>p. Ret Undefined)) init)"

definition mutate_written :: state where
  "mutate_written = write_prop 0 ''count'' (Num 1) mutate_state"

text \<open>
  Two subscribers of \<open>count\<close>: effect \<open>0\<close> is constructed with a scheduler that throws
  and run once by hand, effect \<open>1\<close> is registered by \<open>effect\<close>.
\<close>

definition sched_throw_setup :: "(val \<Rightarrow> prog) \<Rightarrow> prog" where
  "sched_throw_setup rest =
     NewObj [(''count'', Num 0)] (\<lambda>ob. Reactive ob (\<lambda>p.
       NewEffect (Get p ''count'' (\<lambda>v. Ret v)) (Some (Throw (Str ''boom'')))
         (\<lambda>e. Run e (\<lambda>_. Effect (Get p ''count'' (\<lambda>v. Ret v)) (\<lambda>_. rest p)))))"

definition sched_throw_state :: state where
  "sched_throw_state = final (exec 10 (sched_throw_setup (\<lambda>p. Ret Undefined)) init)"

text \<open>
  \<open>const p = reactive({}); effect(() => p.toString); p.toString = undefined\<close>: the key
  is inherited, not the object's own.
\<close>

definition inherited_prog :: prog where
  "inherited_prog =
     NewObj [] (\<lambda>ob. Reactive ob (\<lambda>p.
       Effect (Get p ''toString'' (\<lambda>v. Ret v))
         (\<lambda>_. Put p ''toString'' Undefined (Ret Undefined))))"

text \<open>
  The repository's test \<open>should be reactive\<close>: \<open>dummy\<close> is a variable of the test, here
  a property of a raw object of its own. The computation throws where an \<open>expect\<close> fails.
\<close>

definition should_be_reactive :: prog where
  "should_be_reactive =
     NewObj [(''count'', Num 0)] (\<lambda>original. Reactive original (\<lambda>observed.
       NewObj [] (\<lambda>vars.
         Effect (Get observed ''count'' (\<lambda>v. Put vars ''dummy'' v (Ret Undefined)))
           (\<lambda>_. Get vars ''dummy'' (\<lambda>dummy.
             if \<not> strict_eq dummy (Num 0) then Throw (Str ''expected 0'')
             else Put observed ''count'' (Num 1)
                    (Get vars ''dummy'' (\<lambda>dummy.
                       if \<not> strict_eq dummy (Num 1) then Throw (Str ''expected 1'')
                       else Ret dummy)))))))"

section \<open>Basic facts\<close>

lemma result_split: "outcome m = Some (r, cs) \<Longrightarrow> m = Some (r, final m, cs)"
  by (auto simp: outcome_def final_def)

lemma track_no_active: "activeEffect s = None \<Longrightarrow> track t k s = s"
  by (simp add: track_def)

lemma get_prop_no_active: "activeEffect s = None \<Longrightarrow> snd (get_prop x k s) = s"
  by (cases x) (simp_all add: split_beta proxy_get_def track_no_active Let_def)

lemma nested_state_effects:
  "effects nested_state =
     [\<lparr>active = True, deps = [], fn = Ret Undefined, scheduler = None\<rparr>,
      \<lparr>active = True, deps = [], fn = read_count, scheduler = None\<rparr>,
      \<lparr>active = True, deps = [], fn = throw_after_read, scheduler = None\<rparr>]"
  by (simp add: nested_state_def new_effect_def count_obj_def write_prop_def init_def)

section \<open>Reads outside any effect\<close>

text \<open>
  C9. \<open>track\<close> returns at once when there is no active effect: the state, and with it the
  dependency graph, is unchanged. So a property read outside any run, through a Proxy
  (\<open>proxy_get\<close>) or on any value at all (\<open>get_prop\<close>), adds no entry to \<open>targetMap\<close>,
  no member to any set and nothing to any effect's \<open>deps\<close>.
\<close>

theorem track_outside_effect:
  assumes "activeEffect s = None"
  shows "track t k s = s \<and> snd (proxy_get t k s) = s \<and> snd (get_prop x k s) = s"
proof -
  have "snd (proxy_get t k s) = s"
    by (simp add: proxy_get_def track_no_active [OF assms] Let_def)
  with assms show ?thesis
    by (simp add: track_no_active get_prop_no_active)
qed

theorem track_outside_effect_witness:
  "activeEffect count_obj = None \<and> track 0 ''count'' count_obj = count_obj
   \<and> snd (get_prop (Prx 0 0) ''count'' count_obj) = count_obj
   \<and> fst (get_prop (Prx 0 0) ''count'' count_obj) = Ok (Num 0)"
proof -
  have a: "activeEffect count_obj = None"
    by code_simp
  have v: "fst (get_prop (Prx 0 0) ''count'' count_obj) = Ok (Num 0)"
    by code_simp
  from track_outside_effect [OF a, of 0 "''count''" "Prx 0 0"] a v show ?thesis
    by simp
qed

section \<open>reactive is idempotent\<close>

text \<open>
  C6. Let \<open>reactive x\<close> return \<open>v\<close>. Then \<open>reactive v\<close> returns the identical \<open>v\<close>
  (wrapping a view gives the view), a second \<open>reactive x\<close> returns the identical \<open>v\<close>
  (the cache \<open>reactiveMap\<close> answers), and neither call changes the state any more. If \<open>x\<close>
  is \<open>null\<close> or not an object, \<open>x\<close> itself is returned and nothing changes.
\<close>

theorem reactive_idempotent:
  assumes "reactive x s = (v, s1)"
  shows "reactive v s1 = (v, s1) \<and> reactive x s1 = (v, s1)
         \<and> (x = Null \<or> \<not> typeof_object x \<longrightarrow> v = x \<and> s1 = s)"
proof (cases x)
  case (Obj t)
  then show ?thesis using assms
    by (auto simp: reactive_def read_prop_def IS_REACTIVE_def split: if_splits option.splits)
next
  case (Prx p t)
  then show ?thesis using assms by (auto simp: reactive_def)
qed (use assms in \<open>auto simp: reactive_def\<close>)

theorem reactive_idempotent_witness:
  "reactive (Obj 0) count_obj = (Prx 0 0, snd (reactive (Obj 0) count_obj))
   \<and> reactive (Prx 0 0) (snd (reactive (Obj 0) count_obj))
       = (Prx 0 0, snd (reactive (Obj 0) count_obj))
   \<and> reactive (Obj 0) (snd (reactive (Obj 0) count_obj))
       = (Prx 0 0, snd (reactive (Obj 0) count_obj))"
proof -
  have "fst (reactive (Obj 0) count_obj) = Prx 0 0"
    by code_simp
  then have r: "reactive (Obj 0) count_obj = (Prx 0 0, snd (reactive (Obj 0) count_obj))"
    by (simp add: prod_eq_iff)
  from reactive_idempotent [OF r] r show ?thesis by simp
qed

section \<open>The active-effect slot around run\<close>

text \<open>
  C10. When \<open>run\<close> on an active effect completes, with a value or with an exception, and
  whatever \<open>activeEffect\<close> was when it started (so also inside another effect's run),
  \<open>activeEffect\<close> is \<open>undefined\<close>. Consequently \<open>track\<close> does nothing in the state it
  leaves, and a property read that follows (the enclosing effect reading after a nested
  effect has run) changes nothing in the dependency graph.
\<close>

theorem run_clears_slot:
  assumes "e < length (effects s)" and "active (effects s ! e)"
    and "run (exec n) e s = Some (r, s', cs)"
  shows "activeEffect s' = None \<and> track t k s' = s' \<and> snd (get_prop x k s') = s'"
proof -
  from assms have "activeEffect s' = None"
    by (auto simp: run_def split: option.splits)
  then show ?thesis
    by (simp add: track_no_active get_prop_no_active)
qed

theorem run_clears_slot_witness:
  "activeEffect nested_state = Some 0
   \<and> outcome (run (exec 2) 1 nested_state) = Some (Ok (Num 0), [])
   \<and> activeEffect (final (run (exec 2) 1 nested_state)) = None
   \<and> track 0 ''count'' (final (run (exec 2) 1 nested_state)) = final (run (exec 2) 1 nested_state)"
proof -
  have 1: "1 < length (effects nested_state)" and 2: "active (effects nested_state ! 1)"
    by code_simp+
  have o: "outcome (run (exec 2) 1 nested_state) = Some (Ok (Num 0), [])"
    by code_simp
  have a: "activeEffect nested_state = Some 0"
    by code_simp
  from run_clears_slot [OF 1 2 result_split [OF o], of 0 "''count''"] o a show ?thesis
    by simp
qed

text \<open>
  C2, as the code has it. \<open>run\<close> on an active effect does not look at the value that
  \<open>activeEffect\<close> holds at entry (\<open>a\<close> below is arbitrary and is not saved): the user
  function runs with \<open>activeEffect\<close> set to the effect, and on both exits, return and
  exception, \<open>activeEffect\<close> is set to \<open>undefined\<close>.
\<close>

theorem run_slot_discipline:
  assumes "e < length (effects s)" and "active (effects s ! e)"
  shows "run (exec n) e (s\<lparr>activeEffect := a\<rparr>) =
           (case exec n (fn (effects s ! e)) (s\<lparr>activeEffect := Some e\<rparr>) of
              None \<Rightarrow> None
            | Some (r, s1, cs) \<Rightarrow> Some (r, s1\<lparr>activeEffect := None\<rparr>, cs))"
  using assms by (simp add: run_def)

theorem run_slot_discipline_witness:
  "run (exec 2) 1 (count_obj\<lparr>effects := effects nested_state, activeEffect := Some 0\<rparr>) =
     (case exec 2 read_count (count_obj\<lparr>effects := effects nested_state, activeEffect := Some 1\<rparr>) of
        None \<Rightarrow> None
      | Some (r, s1, cs) \<Rightarrow> Some (r, s1\<lparr>activeEffect := None\<rparr>, cs))"
proof -
  have 1: "1 < length (effects (count_obj\<lparr>effects := effects nested_state\<rparr>))"
    and 2: "active (effects (count_obj\<lparr>effects := effects nested_state\<rparr>) ! 1)"
    and 3: "fn (effects (count_obj\<lparr>effects := effects nested_state\<rparr>) ! 1) = read_count"
    by (simp_all add: nested_state_effects)
  from run_slot_discipline [OF 1 2, of 2 "Some 0"] 3 show ?thesis
    by simp
qed

text \<open>
  C2 as stated fails: the slot is not restored to the value it held at entry. Effect
  \<open>1\<close> runs inside the run of effect \<open>0\<close>; when it has returned, \<open>activeEffect\<close> is
  \<open>undefined\<close>, not effect \<open>0\<close>.
  In a whole program: the outer effect of \<open>nested_prog\<close> reads \<open>p.count\<close> after the inner
  effect has run, and that read is not recorded, so \<open>targetMap\<close> has no entry for the
  object.
\<close>

theorem run_restore_counterexample:
  "activeEffect nested_state = Some 0
   \<and> outcome (run (exec 2) 1 nested_state) = Some (Ok (Num 0), [])
   \<and> activeEffect (final (run (exec 2) 1 nested_state)) \<noteq> activeEffect nested_state
   \<and> outcome (exec 8 nested_prog init) = Some (Ok Undefined, [])
   \<and> targetMap (final (exec 8 nested_prog init)) 0 = None"
  by code_simp

section \<open>A user function that throws\<close>

text \<open>
  C8, as the code has it. If the user function of an active effect throws \<open>x\<close> in the
  state \<open>sb\<close>, then \<open>run\<close> throws the same \<open>x\<close>, reports the same invocations, and
  leaves \<open>sb\<close> with \<open>activeEffect\<close> set to \<open>undefined\<close>: heap, \<open>targetMap\<close>, the
  sets and the effects are as the user function left them. This is the state that a return
  from \<open>sb\<close> leaves, so what follows the failed run sees what it would see after a run
  that returned there. For a stopped effect \<open>run\<close> is the call of the user function and
  nothing else.
\<close>

theorem run_exception:
  assumes "e < length (effects s)"
  shows "(active (effects s ! e) \<longrightarrow>
            (exec n (fn (effects s ! e)) (s\<lparr>activeEffect := Some e\<rparr>) = Some (Exn x, sb, cs)
               \<longrightarrow> run (exec n) e s = Some (Exn x, sb\<lparr>activeEffect := None\<rparr>, cs))
          \<and> (exec n (fn (effects s ! e)) (s\<lparr>activeEffect := Some e\<rparr>) = Some (Ok v, sb, cs)
               \<longrightarrow> run (exec n) e s = Some (Ok v, sb\<lparr>activeEffect := None\<rparr>, cs)))
       \<and> (\<not> active (effects s ! e) \<longrightarrow> run (exec n) e s = exec n (fn (effects s ! e)) s)"
  using assms by (simp add: run_def)

theorem run_exception_witness:
  "outcome (exec 2 throw_after_read (nested_state\<lparr>activeEffect := Some 2\<rparr>))
     = Some (Exn (Str ''boom''), [])
   \<and> run (exec 2) 2 nested_state
     = Some (Exn (Str ''boom''),
             (final (exec 2 throw_after_read (nested_state\<lparr>activeEffect := Some 2\<rparr>)))
               \<lparr>activeEffect := None\<rparr>, [])"
proof -
  have 1: "2 < length (effects nested_state)" and 2: "active (effects nested_state ! 2)"
    and 3: "fn (effects nested_state ! 2) = throw_after_read"
    by (simp_all add: nested_state_effects)
  have o: "outcome (exec 2 throw_after_read (nested_state\<lparr>activeEffect := Some 2\<rparr>))
             = Some (Exn (Str ''boom''), [])"
    by code_simp
  from run_exception [OF 1, of 2 "Str ''boom''" _ "[]"] 2 3 result_split [OF o] o
  show ?thesis by simp
qed

text \<open>
  C8 as stated fails in one point. After a run that threw, the slot does not hold what it
  held before the run when the run was nested: effect \<open>2\<close> throws inside the run of
  effect \<open>0\<close>, and afterwards \<open>activeEffect\<close> is \<open>undefined\<close>, not effect \<open>0\<close>.
\<close>

theorem run_throw_restore_counterexample:
  "activeEffect nested_state = Some 0
   \<and> outcome (run (exec 2) 2 nested_state) = Some (Exn (Str ''boom''), [])
   \<and> activeEffect (final (run (exec 2) 2 nested_state)) = None"
  by code_simp

section \<open>Every engine call keeps a preserved property\<close>

text \<open>
  The engine functions are proved one by one, each for any good way of calling user
  functions; induction on the fuel then closes the recursion for \<open>exec\<close>.
\<close>

lemma okI: "(\<And>r s' cs. m = Some (r, s', cs) \<Longrightarrow> P s' \<and> forest_ids cs \<subseteq> A) \<Longrightarrow> ok P A m"
  by (simp add: ok_def)

lemma okD: "ok P A m \<Longrightarrow> m = Some (r, s', cs) \<Longrightarrow> P s' \<and> forest_ids cs \<subseteq> A"
  by (simp add: ok_def)

lemma ok_None [simp]: "ok P A None"
  by (simp add: ok_def)

lemma ok_Some [simp]: "ok P A (Some (r, s, cs)) \<longleftrightarrow> P s \<and> forest_ids cs \<subseteq> A"
  by (simp add: ok_def)

lemma forest_ids_simps [simp]:
  "forest_ids [] = {}"
  "forest_ids (c # cs) = ids c \<union> forest_ids cs"
  "forest_ids (cs @ cs') = forest_ids cs \<union> forest_ids cs'"
  by (auto simp: forest_ids_def)

lemma ids_Call [simp]: "ids (Call kd e cs) = insert e (forest_ids cs)"
  by (simp add: forest_ids_def)

declare ids.simps [simp del]

lemma seq_ok:
  assumes "ok P A m" and "\<And>v s. P s \<Longrightarrow> ok P A (f v s)"
  shows "ok P A (seq m f)"
proof (rule okI)
  fix r s' cs
  assume "seq m f = Some (r, s', cs)"
  then consider (exn) x where "m = Some (Exn x, s', cs)" "r = Exn x"
    | (ok) v s1 cs1 cs2 where "m = Some (Ok v, s1, cs1)" "f v s1 = Some (r, s', cs2)"
        "cs = cs1 @ cs2"
    unfolding seq_def by (auto split: option.splits res.splits prod.splits)
  then show "P s' \<and> forest_ids cs \<subseteq> A"
  proof cases
    case exn
    with assms(1) show ?thesis by (simp add: ok_def)
  next
    case ok
    from okD [OF assms(1) ok(1)] have "P s1" and 1: "forest_ids cs1 \<subseteq> A" by simp_all
    from okD [OF assms(2) [OF \<open>P s1\<close>] ok(2)] have "P s'" and "forest_ids cs2 \<subseteq> A" by simp_all
    with 1 ok(3) show ?thesis by simp
  qed
qed

lemma goodD: "good P A call \<Longrightarrow> P s \<Longrightarrow> ok P A (call p s)"
  by (simp add: good_def)

lemma preserved_same: "preserved P A \<Longrightarrow> P s \<Longrightarrow> same_graph s s' \<Longrightarrow> P s'"
  by (simp add: preserved_def)

lemma preserved_track: "preserved P A \<Longrightarrow> P s \<Longrightarrow> P (track t k s)"
  by (simp add: preserved_def)

lemma preserved_new: "preserved P A \<Longrightarrow> P s \<Longrightarrow> P (new_effect f sch s)"
  by (simp add: preserved_def)

lemma preserved_stop: "preserved P A \<Longrightarrow> P s \<Longrightarrow> e < length (effects s) \<Longrightarrow> P (stop e s)"
  by (simp add: preserved_def)

lemma preserved_enter:
  "preserved P A \<Longrightarrow> P s \<Longrightarrow> e < length (effects s) \<Longrightarrow> active (effects s ! e)
   \<Longrightarrow> P (s\<lparr>activeEffect := Some e\<rparr>)"
  by (simp add: preserved_def)

lemma preserved_leave: "preserved P A \<Longrightarrow> P s \<Longrightarrow> P (s\<lparr>activeEffect := None\<rparr>)"
  by (simp add: preserved_def)

lemma preserved_member: "preserved P A \<Longrightarrow> P s \<Longrightarrow> x \<in> set (sets s d) \<Longrightarrow> x \<in> A"
  by (simp add: preserved_def)

lemma run_ok:
  assumes st: "preserved P A" and g: "good P A call" and P: "P s"
  shows "ok P A (run call e s)"
proof (rule okI)
  fix r s' cs
  assume r: "run call e s = Some (r, s', cs)"
  show "P s' \<and> forest_ids cs \<subseteq> A"
  proof (cases "e < length (effects s)")
    case False
    with r P show ?thesis by (simp add: run_def)
  next
    case lt: True
    show ?thesis
    proof (cases "active (effects s ! e)")
      case False
      with r lt have "call (fn (effects s ! e)) s = Some (r, s', cs)"
        by (simp add: run_def)
      with goodD [OF g P] show ?thesis by (simp add: ok_def)
    next
      case True
      with r lt obtain s1 where
        c: "call (fn (effects s ! e)) (s\<lparr>activeEffect := Some e\<rparr>) = Some (r, s1, cs)"
        and s': "s' = s1\<lparr>activeEffect := None\<rparr>"
        by (auto simp: run_def split: option.splits)
      from preserved_enter [OF st P lt True] have "P (s\<lparr>activeEffect := Some e\<rparr>)" .
      from okD [OF goodD [OF g this] c] have "P s1" and "forest_ids cs \<subseteq> A" by simp_all
      with preserved_leave [OF st] s' show ?thesis by simp
    qed
  qed
qed

lemma invoke_ok:
  assumes st: "preserved P A" and g: "good P A call" and P: "P s" and e: "e \<in> A"
  shows "ok P A (invoke call e s)"
proof (rule okI)
  fix r s' cs
  assume i: "invoke call e s = Some (r, s', cs)"
  show "P s' \<and> forest_ids cs \<subseteq> A"
  proof (cases "e < length (effects s)")
    case False
    with i P show ?thesis by (simp add: invoke_def)
  next
    case lt: True
    show ?thesis
    proof (cases "scheduler (effects s ! e)")
      case None
      with i lt obtain cs1 where "run call e s = Some (r, s', cs1)" and "cs = [Call Ran e cs1]"
        by (auto simp: invoke_def split: option.splits)
      with okD [OF run_ok [OF st g P]] e show ?thesis by simp
    next
      case (Some sch)
      with i lt obtain cs1 where "call sch s = Some (r, s', cs1)" and "cs = [Call Scheduled e cs1]"
        by (auto simp: invoke_def split: option.splits)
      with okD [OF goodD [OF g P]] e show ?thesis by simp
    qed
  qed
qed

lemma run_effects_ok:
  assumes st: "preserved P A" and g: "good P A call"
  shows "P s \<Longrightarrow> set es \<subseteq> A \<Longrightarrow> ok P A (run_effects call es s)"
proof (induction es arbitrary: s)
  case Nil
  then show ?case by simp
next
  case (Cons e es)
  show ?case
    unfolding run_effects.simps
  proof (rule seq_ok)
    show "ok P A (invoke call e s)"
      using Cons.prems by (intro invoke_ok [OF st g]) simp_all
  next
    fix v s1
    assume "P s1"
    then show "ok P A (run_effects call es s1)"
      using Cons.prems by (intro Cons.IH) simp_all
  qed
qed

lemma trigger_ok:
  assumes st: "preserved P A" and g: "good P A call" and P: "P s"
  shows "ok P A (trigger call t k s)"
proof -
  have "ok P A (run_effects call (sets s d) s)" for d
    using preserved_member [OF st P] by (intro run_effects_ok [OF st g P]) auto
  with P show ?thesis
    by (simp add: trigger_def split: option.splits)
qed

lemma same_graph_write [simp]: "same_graph s (write_prop t k v s)"
  by (simp add: same_graph_def write_prop_def)

lemma same_graph_reactive: "same_graph s (snd (reactive x s))"
  by (cases x) (auto simp: same_graph_def reactive_def split: option.splits)

lemma proxy_set_ok:
  assumes st: "preserved P A" and g: "good P A call" and P: "P s"
  shows "ok P A (proxy_set call t k v s)"
proof -
  have w: "P (write_prop t k v s)"
    using preserved_same [OF st P] by simp
  have "ok P A (seq (trigger call t k (write_prop t k v s)) (\<lambda>_ s2. Some (Ok (Bool True), s2, [])))"
    by (rule seq_ok [OF trigger_ok [OF st g w]]) simp
  with w show ?thesis
    by (simp add: proxy_set_def Let_def)
qed

lemma set_prop_ok:
  assumes st: "preserved P A" and g: "good P A call" and P: "P s"
  shows "ok P A (set_prop call x k v s)"
proof (cases x)
  case (Obj t)
  with preserved_same [OF st P] show ?thesis by simp
next
  case (Prx p t)
  with proxy_set_ok [OF st g P] show ?thesis by simp
qed (use P in simp_all)

lemma get_prop_P:
  assumes st: "preserved P A" and P: "P s"
  shows "P (snd (get_prop x k s))"
proof (cases x)
  case (Prx p t)
  with preserved_track [OF st P] P show ?thesis
    by (simp add: proxy_get_def Let_def split_beta)
qed (use P in simp_all)

lemma exec_node_ok:
  assumes st: "preserved P A" and g: "good P A call" and P: "P s"
  shows "ok P A (exec_node call p s)"
proof (cases p)
  case (Ret v)
  with P show ?thesis by simp
next
  case (Throw v)
  with P show ?thesis by simp
next
  case (NewObj ps c)
  have "same_graph s (s\<lparr>heap := (heap s)(nobj s := map_of (rev ps)), nobj := Suc (nobj s)\<rparr>)"
    by (simp add: same_graph_def)
  from preserved_same [OF st P this] NewObj show ?thesis
    by (simp add: goodD [OF g])
next
  case (Get x k c)
  from get_prop_P [OF st P, of x k] show ?thesis
    unfolding Get by (cases "get_prop x k s") (auto split: res.splits intro: goodD [OF g])
next
  case (Put x k v c)
  show ?thesis
    unfolding Put exec_node.simps
    by (rule seq_ok [OF set_prop_ok [OF st g P]]) (rule goodD [OF g])
next
  case (Reactive x c)
  from preserved_same [OF st P same_graph_reactive, of x] show ?thesis
    unfolding Reactive by (cases "reactive x s") (auto intro: goodD [OF g])
next
  case (Effect f c)
  show ?thesis
    unfolding Effect exec_node.simps
    by (rule seq_ok [OF run_ok [OF st g preserved_new [OF st P]]]) (rule goodD [OF g])
next
  case (NewEffect f sch c)
  with preserved_new [OF st P] show ?thesis
    by (simp add: goodD [OF g])
next
  case (Run e c)
  show ?thesis
    unfolding Run exec_node.simps
    by (rule seq_ok [OF run_ok [OF st g P]]) (rule goodD [OF g])
next
  case (Stop e c)
  with preserved_stop [OF st P] P show ?thesis
    by (simp add: goodD [OF g])
qed

lemma exec_good:
  assumes "preserved P A"
  shows "good P A (exec n)"
proof (induction n)
  case 0
  show ?case by (simp add: good_def)
next
  case (Suc n)
  show ?case
    unfolding good_def exec.simps
    by (intro allI impI exec_node_ok [OF assms Suc])
qed

lemma exec_ok: "preserved P A \<Longrightarrow> P s \<Longrightarrow> exec n p s = Some (r, s', cs) \<Longrightarrow> P s' \<and> forest_ids cs \<subseteq> A"
  using exec_good [of P A n] by (auto simp: good_def ok_def)

section \<open>What the elementary steps change\<close>

lemma fold_delete:
  "fold (\<lambda>d st. st(d := removeAll e (st d))) ds st
     = (\<lambda>d. if d \<in> set ds then removeAll e (st d) else st d)"
proof (induction ds arbitrary: st)
  case Nil
  show ?case by simp
next
  case (Cons a ds)
  have "fold (\<lambda>d st. st(d := removeAll e (st d))) (a # ds) st
          = (\<lambda>d. if d \<in> set ds then removeAll e ((st(a := removeAll e (st a))) d)
                 else (st(a := removeAll e (st a))) d)"
    by (simp only: fold_simps Cons.IH)
  also have "\<dots> = (\<lambda>d. if d \<in> set (a # ds) then removeAll e (st d) else st d)"
    by (auto simp: fun_eq_iff)
  finally show ?case .
qed

lemma sets_cleanupEffect:
  "sets (cleanupEffect e s) d
     = (if d \<in> set (deps (effects s ! e)) then removeAll e (sets s d) else sets s d)"
  by (simp add: cleanupEffect_def Let_def fold_delete)

lemma effects_cleanupEffect:
  "effects (cleanupEffect e s) = (effects s)[e := (effects s ! e)\<lparr>deps := []\<rparr>]"
proof (cases "deps (effects s ! e) = []")
  case True
  then have "(effects s ! e)\<lparr>deps := []\<rparr> = effects s ! e"
    by (cases "effects s ! e") simp
  then have "(effects s)[e := (effects s ! e)\<lparr>deps := []\<rparr>] = effects s"
    by (simp only: list_update_id)
  moreover have "effects (cleanupEffect e s) = effects s"
    using True by (simp add: cleanupEffect_def)
  ultimately show ?thesis by simp
next
  case False
  then show ?thesis
    by (simp add: cleanupEffect_def Let_def)
qed

lemma others_cleanupEffect [simp]:
  "activeEffect (cleanupEffect e s) = activeEffect s"
  "targetMap (cleanupEffect e s) = targetMap s"
  "nsets (cleanupEffect e s) = nsets s"
  "heap (cleanupEffect e s) = heap s"
  by (simp_all add: cleanupEffect_def Let_def)

lemma sets_stop:
  "e < length (effects s) \<Longrightarrow>
   sets (stop e s) d
     = (if active (effects s ! e) \<and> d \<in> set (deps (effects s ! e))
        then removeAll e (sets s d) else sets s d)"
  by (simp add: stop_def sets_cleanupEffect)

lemma effects_stop:
  "e < length (effects s) \<Longrightarrow>
   effects (stop e s)
     = (if active (effects s ! e)
        then (effects s)[e := (effects s ! e)\<lparr>active := False, deps := []\<rparr>]
        else effects s)"
  by (simp add: stop_def effects_cleanupEffect)

lemma others_stop [simp]:
  "activeEffect (stop e s) = activeEffect s"
  "targetMap (stop e s) = targetMap s"
  "nsets (stop e s) = nsets s"
  "heap (stop e s) = heap s"
  by (simp_all add: stop_def)

lemma add_dep_fields [simp]:
  "activeEffect (add_dep a d s) = activeEffect s"
  "nsets (add_dep a d s) = nsets s"
  "length (effects (add_dep a d s)) = length (effects s)"
  by (simp_all add: add_dep_def)

lemma sets_add_dep:
  "sets (add_dep a d s) d' = (if d' = d \<and> a \<notin> set (sets s d) then sets s d @ [a] else sets s d')"
  by (simp add: add_dep_def)

lemma effects_add_dep:
  "effects (add_dep a d s) ! x
     = (if x = a \<and> a < length (effects s) \<and> a \<notin> set (sets s d)
        then (effects s ! a)\<lparr>deps := deps (effects s ! a) @ [d]\<rparr> else effects s ! x)"
  by (cases "a < length (effects s)") (auto simp: add_dep_def nth_list_update list_update_beyond)

lemma track_decomp:
  assumes "activeEffect s = Some a"
  shows "\<exists>s2 d. track t k s = add_dep a d s2 \<and> effects s2 = effects s
           \<and> activeEffect s2 = activeEffect s \<and> nsets s \<le> nsets s2
           \<and> (sets s2 = sets s \<or> sets s2 = (sets s)(nsets s := []))"
proof -
  obtain depsMap s1 where 1: "get_depsMap t s = (depsMap, s1)"
    by (cases "get_depsMap t s")
  obtain d s2 where 2: "get_dep t k depsMap s1 = (d, s2)"
    by (cases "get_dep t k depsMap s1")
  from 1 have f1: "effects s1 = effects s" "activeEffect s1 = activeEffect s"
    "nsets s1 = nsets s" "sets s1 = sets s"
    by (auto simp: get_depsMap_def split: option.splits)
  from 2 have f2: "effects s2 = effects s1" "activeEffect s2 = activeEffect s1"
    "nsets s1 \<le> nsets s2" "sets s2 = sets s1 \<or> sets s2 = (sets s1)(nsets s1 := [])"
    by (auto simp: get_dep_def split: option.splits)
  have "track t k s = add_dep a d s2"
    using assms 1 2 by (simp add: track_def)
  with f1 f2 show ?thesis by auto
qed

lemma dep_of_track:
  "dep_of (track t' k' s) t k
     = (if activeEffect s \<noteq> None \<and> t' = t \<and> k' = k \<and> dep_of s t k = None
        then Some (nsets s) else dep_of s t k)"
  by (cases "activeEffect s"; cases "targetMap s t'")
     (auto simp: track_def get_depsMap_def get_dep_def dep_of_def add_dep_def
           split: option.splits)

lemma nsets_track: "nsets s \<le> nsets (track t k s)"
  by (cases "activeEffect s"; cases "targetMap s t")
     (auto simp: track_def get_depsMap_def get_dep_def add_dep_def split: option.splits)

lemma nsets_track_new:
  "activeEffect s \<noteq> None \<Longrightarrow> dep_of s t k = None \<Longrightarrow> nsets (track t k s) = Suc (nsets s)"
  by (cases "targetMap s t")
     (auto simp: track_def get_depsMap_def get_dep_def add_dep_def dep_of_def
           split: option.splits)

lemma dep_of_fields [simp]:
  "dep_of (new_effect f sch s) = dep_of s"
  "dep_of (stop e s) = dep_of s"
  "dep_of (s\<lparr>activeEffect := a\<rparr>) = dep_of s"
  "dep_of (write_prop t' k' v s) = dep_of s"
  by (simp_all add: dep_of_def fun_eq_iff new_effect_def write_prop_def)

lemma same_graph_dep_of: "same_graph s s' \<Longrightarrow> dep_of s' = dep_of s"
  by (simp add: same_graph_def dep_of_def fun_eq_iff)

lemma track_activeEffect [simp]: "activeEffect (track t k s) = activeEffect s"
proof (cases "activeEffect s")
  case None
  then show ?thesis by (simp add: track_no_active)
next
  case (Some a)
  from track_decomp [OF this, of t k] show ?thesis by auto
qed

lemma new_effect_fields [simp]:
  "activeEffect (new_effect f sch s) = activeEffect s"
  "sets (new_effect f sch s) = sets s"
  "nsets (new_effect f sch s) = nsets s"
  "length (effects (new_effect f sch s)) = Suc (length (effects s))"
  "x < length (effects s) \<Longrightarrow> effects (new_effect f sch s) ! x = effects s ! x"
  by (simp_all add: new_effect_def nth_append)

section \<open>The link between sets and effects is kept\<close>

lemma consistent_track: assumes "consistent s" shows "consistent (track t k s)"
proof (cases "activeEffect s")
  case None
  with assms show ?thesis by (simp add: track_no_active)
next
  case (Some a)
  from track_decomp [OF this, of t k] obtain s2 d where
    tr: "track t k s = add_dep a d s2" and e2: "effects s2 = effects s"
    and a2: "activeEffect s2 = activeEffect s"
    and st: "sets s2 = sets s \<or> sets s2 = (sets s)(nsets s := [])"
    by blast
  from assms Some have a: "a < length (effects s)"
    by (simp add: consistent_def)
  have sub: "x \<in> set (sets s2 d') \<Longrightarrow> x \<in> set (sets s d')" for x d'
    using st by (auto split: if_splits)
  have tm: "\<forall>t' k' d'. dep_of (track t k s) t' k' = Some d' \<longrightarrow> d' < nsets (track t k s)"
  proof (intro allI impI)
    fix t' k' d'
    assume d: "dep_of (track t k s) t' k' = Some d'"
    show "d' < nsets (track t k s)"
    proof (cases "t = t' \<and> k = k' \<and> dep_of s t' k' = None")
      case True
      with d Some have "d' = nsets s"
        by (simp add: dep_of_track)
      with True Some show ?thesis
        by (simp add: nsets_track_new)
    next
      case False
      with d have "dep_of s t' k' = Some d'"
        by (auto simp: dep_of_track split: if_splits)
      with assms have "d' < nsets s"
        by (simp add: consistent_def)
      with nsets_track [of s t k] show ?thesis by simp
    qed
  qed
  have "(\<forall>d' x. x \<in> set (sets (add_dep a d s2) d')
            \<longrightarrow> x < length (effects (add_dep a d s2))
                \<and> d' \<in> set (deps (effects (add_dep a d s2) ! x)))
        \<and> (\<forall>b. activeEffect (add_dep a d s2) = Some b \<longrightarrow> b < length (effects (add_dep a d s2)))"
  proof (intro conjI allI impI)
    fix d' x
    assume x: "x \<in> set (sets (add_dep a d s2) d')"
    then have "x \<in> set (sets s d') \<or> (x = a \<and> d' = d)"
      using sub by (auto simp: sets_add_dep split: if_splits)
    then show "x < length (effects (add_dep a d s2))"
      using assms a e2 by (auto simp: consistent_def)
    show "d' \<in> set (deps (effects (add_dep a d s2) ! x))"
    proof (cases "x = a \<and> d' = d")
      case True
      then show ?thesis
        using x a e2 sub assms
        by (auto simp: effects_add_dep sets_add_dep consistent_def split: if_splits)
    next
      case False
      with x have "x \<in> set (sets s d')"
        using sub by (auto simp: sets_add_dep split: if_splits)
      with assms have "d' \<in> set (deps (effects s ! x))"
        by (simp add: consistent_def)
      then show ?thesis
        using e2 by (auto simp: effects_add_dep)
    qed
  next
    fix b
    assume "activeEffect (add_dep a d s2) = Some b"
    with a2 assms e2 show "b < length (effects (add_dep a d s2))"
      by (simp add: consistent_def)
  qed
  then have "(\<forall>d' x. x \<in> set (sets (track t k s) d')
            \<longrightarrow> x < length (effects (track t k s))
                \<and> d' \<in> set (deps (effects (track t k s) ! x)))
        \<and> (\<forall>b. activeEffect (track t k s) = Some b \<longrightarrow> b < length (effects (track t k s)))"
    by (simp only: tr)
  with tm show ?thesis
    unfolding consistent_def by (intro conjI) (erule conjunct1, erule conjunct2, assumption)
qed

lemma consistent_stop: assumes "consistent s" and e: "e < length (effects s)" shows "consistent (stop e s)"
  unfolding consistent_def
proof (intro conjI allI impI)
  fix d x
  assume x: "x \<in> set (sets (stop e s) d)"
  then have xs: "x \<in> set (sets s d)"
    by (auto simp: sets_stop [OF e] split: if_splits)
  with assms have xl: "x < length (effects s)" and dx: "d \<in> set (deps (effects s ! x))"
    by (simp_all add: consistent_def)
  from xl show "x < length (effects (stop e s))"
    by (simp add: effects_stop [OF e])
  have "\<not> (x = e \<and> active (effects s ! e))"
    using x dx by (auto simp: sets_stop [OF e])
  with dx show "d \<in> set (deps (effects (stop e s) ! x))"
    by (auto simp: effects_stop [OF e] nth_list_update)
next
  fix a
  assume "activeEffect (stop e s) = Some a"
  with assms show "a < length (effects (stop e s))"
    by (simp add: consistent_def effects_stop [OF e])
next
  fix t k d
  assume "dep_of (stop e s) t k = Some d"
  then have "dep_of s t k = Some d" by simp
  with \<open>consistent s\<close> have "d < nsets s" by (auto simp: consistent_def)
  then show "d < nsets (stop e s)" by simp
qed

lemma consistent_preserved: "preserved consistent UNIV"
  unfolding preserved_def
proof (intro conjI allI impI)
  fix s s' assume "consistent s" "same_graph s s'"
  then show "consistent s'"
    using same_graph_dep_of [of s s'] by (simp add: consistent_def same_graph_def)
next
  fix s t k assume "consistent s" then show "consistent (track t k s)" by (rule consistent_track)
next
  fix s f sch assume w: "consistent s"
  show "consistent (new_effect f sch s)"
    unfolding consistent_def
  proof (intro conjI allI impI)
    fix d x assume "x \<in> set (sets (new_effect f sch s) d)"
    with w have "x < length (effects s) \<and> d \<in> set (deps (effects s ! x))"
      by (simp add: consistent_def)
    then show "x < length (effects (new_effect f sch s))"
      and "d \<in> set (deps (effects (new_effect f sch s) ! x))"
      by simp_all
  next
    fix a assume "activeEffect (new_effect f sch s) = Some a"
    with w have "a < length (effects s)" by (simp add: consistent_def)
    then show "a < length (effects (new_effect f sch s))" by simp
  next
    fix t k d assume "dep_of (new_effect f sch s) t k = Some d"
    then have "dep_of s t k = Some d" by simp
    with w have "d < nsets s" by (auto simp: consistent_def)
    then show "d < nsets (new_effect f sch s)" by simp
  qed
next
  fix s e assume "consistent s" "e < length (effects s)"
  then show "consistent (stop e s)" by (rule consistent_stop)
next
  fix s e assume "consistent s" "e < length (effects s)"
  then show "consistent (s\<lparr>activeEffect := Some e\<rparr>)" by (simp add: consistent_def)
next
  fix s assume "consistent s"
  then show "consistent (s\<lparr>activeEffect := None\<rparr>)" by (simp add: consistent_def)
qed simp

lemma consistent_init: "consistent init"
  by (simp add: consistent_def init_def dep_of_def)

section \<open>Three more preserved properties\<close>

lemma stopped_track: assumes "stopped e s" shows "stopped e (track t k s)"
proof (cases "activeEffect s")
  case None
  with assms show ?thesis by (simp add: track_no_active)
next
  case (Some a)
  from track_decomp [OF this, of t k] obtain s2 d where
    tr: "track t k s = add_dep a d s2" and e2: "effects s2 = effects s"
    and a2: "activeEffect s2 = activeEffect s"
    and st: "sets s2 = sets s \<or> sets s2 = (sets s)(nsets s := [])"
    by blast
  from assms Some have ne: "a \<noteq> e"
    by (auto simp: stopped_def)
  have "e \<notin> set (sets s2 d')" for d'
    using st assms by (auto simp: stopped_def split: if_splits)
  then have "stopped e (add_dep a d s2)"
    using assms ne e2 a2 by (auto simp: stopped_def sets_add_dep effects_add_dep)
  with tr show ?thesis by simp
qed

lemma stopped_stop:
  assumes "stopped e s" and e': "e' < length (effects s)" shows "stopped e (stop e' s)"
proof (cases "e' = e")
  case True
  with assms show ?thesis by (simp add: stop_def stopped_def)
next
  case False
  with assms show ?thesis
    by (auto simp: stopped_def sets_stop [OF e'] effects_stop [OF e'])
qed

lemma stopped_preserved: "preserved (stopped e) (- {e})"
  unfolding preserved_def
proof (intro conjI allI impI)
  fix s s' assume "stopped e s" "same_graph s s'"
  then show "stopped e s'" by (simp add: stopped_def same_graph_def)
next
  fix s t k assume "stopped e s" then show "stopped e (track t k s)" by (rule stopped_track)
next
  fix s f sch assume "stopped e s"
  then show "stopped e (new_effect f sch s)"
    by (auto simp: stopped_def)
next
  fix s e' assume "stopped e s" "e' < length (effects s)"
  then show "stopped e (stop e' s)" by (rule stopped_stop)
next
  fix s e' assume "stopped e s" "e' < length (effects s)" "active (effects s ! e')"
  then show "stopped e (s\<lparr>activeEffect := Some e'\<rparr>)" by (auto simp: stopped_def)
next
  fix s assume "stopped e s"
  then show "stopped e (s\<lparr>activeEffect := None\<rparr>)" by (simp add: stopped_def)
next
  fix s d x assume "stopped e s" "x \<in> set (sets s d)"
  then show "x \<in> - {e}" by (auto simp: stopped_def)
qed

text \<open>stop establishes stopped, given consistent\<close>

lemma stop_stopped:
  assumes "consistent s" and e: "e < length (effects s)" and a: "activeEffect s \<noteq> Some e"
    and act: "active (effects s ! e)"
  shows "stopped e (stop e s)"
  unfolding stopped_def
proof (intro conjI allI)
  show "e < length (effects (stop e s))" using e by (simp add: effects_stop)
  show "\<not> active (effects (stop e s) ! e)" using e by (simp add: effects_stop)
  show "activeEffect (stop e s) \<noteq> Some e" using a by simp
  fix d
  show "e \<notin> set (sets (stop e s) d)"
  proof
    assume m: "e \<in> set (sets (stop e s) d)"
    then have "e \<in> set (sets s d)"
      by (auto simp: sets_stop [OF e] split: if_splits)
    with \<open>consistent s\<close> have "d \<in> set (deps (effects s ! e))"
      by (simp add: consistent_def)
    with m act show False
      by (simp add: sets_stop [OF e])
  qed
qed

subsection \<open>subscribed\<close>

lemma subscribed_track:
  assumes "subscribed e t k d s" shows "subscribed e t k d (track t' k' s)"
proof (cases "activeEffect s")
  case None
  with assms show ?thesis by (simp add: track_no_active)
next
  case (Some a)
  from track_decomp [OF this, of t' k'] obtain s2 d' where
    tr: "track t' k' s = add_dep a d' s2" and e2: "effects s2 = effects s"
    and st: "sets s2 = sets s \<or> sets s2 = (sets s)(nsets s := [])"
    by blast
  have 1: "dep_of (track t' k' s) t k = Some d"
    using assms by (simp add: dep_of_track subscribed_def)
  have 2: "d < nsets (track t' k' s)"
    using assms nsets_track [of s t' k'] by (simp add: subscribed_def)
  have "sets s2 d = sets s d"
    using st assms by (auto simp: subscribed_def)
  then have "e < length (effects (add_dep a d' s2))
             \<and> (active (effects (add_dep a d' s2) ! e) \<longrightarrow> e \<in> set (sets (add_dep a d' s2) d))"
    using assms e2 by (auto simp: subscribed_def sets_add_dep effects_add_dep)
  with tr 1 2 show ?thesis by (simp add: subscribed_def)
qed

lemma subscribed_stop:
  assumes "subscribed e t k d s" and e': "e' < length (effects s)"
  shows "subscribed e t k d (stop e' s)"
  using assms
  by (auto simp: subscribed_def sets_stop [OF e'] effects_stop [OF e'] nth_list_update)

lemma subscribed_preserved: "preserved (subscribed e t k d) UNIV"
  unfolding preserved_def
proof (intro conjI allI impI)
  fix s s' assume "subscribed e t k d s" "same_graph s s'"
  then show "subscribed e t k d s'"
    using same_graph_dep_of [of s s'] by (simp add: subscribed_def same_graph_def)
next
  fix s t' k' assume "subscribed e t k d s"
  then show "subscribed e t k d (track t' k' s)" by (rule subscribed_track)
next
  fix s f sch assume "subscribed e t k d s"
  then show "subscribed e t k d (new_effect f sch s)"
    by (auto simp: subscribed_def)
next
  fix s e' assume "subscribed e t k d s" "e' < length (effects s)"
  then show "subscribed e t k d (stop e' s)" by (rule subscribed_stop)
next
  fix s e' assume "subscribed e t k d s"
  then show "subscribed e t k d (s\<lparr>activeEffect := Some e'\<rparr>)" by (simp add: subscribed_def)
next
  fix s assume "subscribed e t k d s"
  then show "subscribed e t k d (s\<lparr>activeEffect := None\<rparr>)" by (simp add: subscribed_def)
qed simp

subsection \<open>frozen\<close>

lemma frozen_track: assumes "frozen es s" shows "frozen es (track t k s)"
proof (cases "activeEffect s")
  case None
  with assms show ?thesis by (simp add: track_no_active)
next
  case (Some a)
  from track_decomp [OF this, of t k] obtain s2 d where
    tr: "track t k s = add_dep a d s2" and e2: "effects s2 = effects s"
    by blast
  have "frozen es (add_dep a d s2)"
    using assms e2 by (auto simp: frozen_def effects_add_dep)
  with tr show ?thesis by simp
qed

lemma frozen_preserved: "preserved (frozen es) UNIV"
  unfolding preserved_def
proof (intro conjI allI impI)
  fix s s' assume "frozen es s" "same_graph s s'"
  then show "frozen es s'" by (simp add: frozen_def same_graph_def)
next
  fix s t k assume "frozen es s"
  then show "frozen es (track t k s)" by (rule frozen_track)
next
  fix s f sch assume "frozen es s"
  then show "frozen es (new_effect f sch s)"
    by (auto simp: frozen_def)
next
  fix s e' assume "frozen es s" "e' < length (effects s)"
  then show "frozen es (stop e' s)"
    by (auto simp: frozen_def effects_stop nth_list_update)
next
  fix s e' assume "frozen es s"
  then show "frozen es (s\<lparr>activeEffect := Some e'\<rparr>)" by (simp add: frozen_def)
next
  fix s assume "frozen es s"
  then show "frozen es (s\<lparr>activeEffect := None\<rparr>)" by (simp add: frozen_def)
qed simp

lemma frozen_refl: "frozen (effects s) s"
  by (simp add: frozen_def)

section \<open>Which subscribers trigger invokes\<close>

lemma seq_cases:
  assumes "seq m f = Some (r, s', cs)"
  obtains (exn) x where "m = Some (Exn x, s', cs)" "r = Exn x"
  | (ok) v s1 cs1 cs2 where "m = Some (Ok v, s1, cs1)" "f v s1 = Some (r, s', cs2)"
      "cs = cs1 @ cs2"
  using assms unfolding seq_def
  by (auto split: option.splits res.splits prod.splits)

lemma invoke_shape:
  assumes "invoke call e s = Some (r, s', cs)"
  shows "(\<not> e < length (effects s) \<and> cs = [] \<and> r = Exn TypeError)
         \<or> (e < length (effects s) \<and> (\<exists>sub. cs = [Call (kind_of (effects s) e) e sub]))"
  using assms
  by (cases "e < length (effects s)"; cases "scheduler (effects s ! e)")
     (auto simp: invoke_def kind_of_def split: option.splits)

lemma kind_of_frozen:
  "frozen es s \<Longrightarrow> e < length es \<Longrightarrow> kind_of (effects s) e = kind_of es e"
  by (simp add: frozen_def kind_of_def)

lemma run_effects_roots:
  assumes "frozen es0 s" and "run_effects (exec n) es s = Some (r, s', cs)"
  shows "prefix (map call_id cs) es \<and> (\<forall>v. r = Ok v \<longrightarrow> map call_id cs = es)
         \<and> (\<forall>c\<in>set cs. call_id c < length es0 \<longrightarrow> call_kind c = kind_of es0 (call_id c))"
  using assms
proof (induction es arbitrary: s r s' cs)
  case Nil
  then show ?case by simp
next
  case (Cons e es)
  from Cons.prems(2)
  have "seq (invoke (exec n) e s) (\<lambda>_ s1. run_effects (exec n) es s1) = Some (r, s', cs)"
    by simp
  then show ?case
  proof (cases rule: seq_cases)
    case (exn x)
    from invoke_shape [OF exn(1)] kind_of_frozen [OF Cons.prems(1)] exn(2)
    show ?thesis by auto
  next
    case (ok v s1 cs1 cs2)
    from invoke_shape [OF ok(1)] obtain sub where
      cs1: "cs1 = [Call (kind_of (effects s) e) e sub]"
      by auto
    have "ok (frozen es0) UNIV (invoke (exec n) e s)"
      by (rule invoke_ok [OF frozen_preserved exec_good [OF frozen_preserved] Cons.prems(1)]) simp
    with ok(1) have "frozen es0 s1"
      by (simp add: ok_def)
    from Cons.IH [OF this ok(2)] cs1 ok(3) kind_of_frozen [OF Cons.prems(1)]
    show ?thesis by auto
  qed
qed

lemma trigger_roots:
  assumes "trigger (exec n) t k s = Some (r, s', cs)"
  shows "prefix (map call_id cs) (subscribers s t k)
         \<and> (\<forall>v. r = Ok v \<longrightarrow> map call_id cs = subscribers s t k)
         \<and> (\<forall>c\<in>set cs. call_id c < length (effects s)
               \<longrightarrow> call_kind c = kind_of (effects s) (call_id c))"
proof (cases "dep_of s t k")
  case None
  with assms have "cs = []" and "subscribers s t k = []"
    by (auto simp: trigger_def subscribers_def dep_of_def split: option.splits)
  then show ?thesis by simp
next
  case (Some d)
  with assms have "run_effects (exec n) (sets s d) s = Some (r, s', cs)"
    and "subscribers s t k = sets s d"
    by (auto simp: trigger_def subscribers_def dep_of_def split: option.splits)
  with run_effects_roots [OF frozen_refl] show ?thesis
    by simp
qed

lemma subscribers_dep_of:
  "e \<in> set (subscribers s t k) \<longleftrightarrow> (\<exists>d. dep_of s t k = Some d \<and> e \<in> set (sets s d))"
  by (cases "targetMap s t"; cases "dep_of s t k")
     (auto simp: subscribers_def dep_of_def)

lemma consistent_exec: "exec n p init = Some (r, s, cs) \<Longrightarrow> consistent s"
  using exec_ok [OF consistent_preserved consistent_init] by blast

lemma final_Some: "m = Some (r, s, cs) \<Longrightarrow> final m = s"
  by (simp add: final_def)

lemma consistent_same_graph: "consistent s \<Longrightarrow> same_graph s s' \<Longrightarrow> consistent s'"
  by (rule preserved_same [OF consistent_preserved])

lemma consistent_member:
  "consistent s \<Longrightarrow> e \<in> set (subscribers s t k) \<Longrightarrow> e < length (effects s)"
  by (auto simp: subscribers_dep_of consistent_def)

lemma consistent_count_state: "consistent count_state"
proof -
  have "outcome (exec 5 (count_setup (\<lambda>p. Ret Undefined)) init) = Some (Ok Undefined, [])"
    by code_simp
  from consistent_exec [OF result_split [OF this]] show ?thesis
    by (simp add: count_state_def)
qed

section \<open>trigger against the specification's notify\<close>

lemma invoke_visit:
  assumes "e < length (effects s)"
  shows "invoke (exec n) e s =
           (case notify_visit n e s of
              None \<Rightarrow> None
            | Some (r, s1, sub) \<Rightarrow> Some (r, s1, [Call (kind_of (effects s) e) e sub]))"
  using assms
  by (cases "scheduler (effects s ! e)")
     (auto simp: invoke_def notify_visit_def kind_of_def split: option.splits)

lemma visit_length:
  assumes "notify_visit n e s = Some (r, s1, sub)"
  shows "length (effects s) \<le> length (effects s1)"
proof -
  have "ok (frozen (effects s)) UNIV (notify_visit n e s)"
  proof (cases "scheduler (effects s ! e)")
    case None
    with run_ok [OF frozen_preserved exec_good [OF frozen_preserved] frozen_refl]
    show ?thesis by (simp add: notify_visit_def)
  next
    case (Some sch)
    with goodD [OF exec_good [OF frozen_preserved] frozen_refl]
    show ?thesis by (simp add: notify_visit_def)
  qed
  with assms show ?thesis
    by (simp add: ok_def frozen_def)
qed

lemma iteration_Nil:
  "notify_iteration n [] s r s' cs \<longleftrightarrow> r = Ok Undefined \<and> s' = s \<and> cs = []"
  by (subst notify_iteration.simps) auto

lemma run_effects_iteration1:
  "\<forall>e\<in>set es. e < length (effects s) \<Longrightarrow> run_effects (exec n) es s = Some (r, s', cs)
   \<Longrightarrow> notify_iteration n es s r s' cs"
proof (induction es arbitrary: s r s' cs)
  case Nil
  then show ?case by (simp add: iteration_Nil)
next
  case (Cons e es)
  from Cons.prems(1) have e: "e < length (effects s)"
    by simp
  from Cons.prems(2)
  have "seq (invoke (exec n) e s) (\<lambda>_ s1. run_effects (exec n) es s1) = Some (r, s', cs)"
    by simp
  then show ?case
  proof (cases rule: seq_cases)
    case (exn x)
    from exn(1) obtain sub where "notify_visit n e s = Some (Exn x, s', sub)"
      and "cs = [Call (kind_of (effects s) e) e sub]"
      by (auto simp: invoke_visit [OF e] split: option.splits)
    with exn(2) show ?thesis
      by (simp add: notify_iteration.thrown)
  next
    case (ok v s1 cs1 cs2)
    from ok(1) obtain sub where v: "notify_visit n e s = Some (Ok v, s1, sub)"
      and cs1: "cs1 = [Call (kind_of (effects s) e) e sub]"
      by (auto simp: invoke_visit [OF e] split: option.splits)
    from visit_length [OF v] Cons.prems(1) have "\<forall>e\<in>set es. e < length (effects s1)"
      by auto
    from Cons.IH [OF this ok(2)] have "notify_iteration n es s1 r s' cs2" .
    from notify_iteration.visited [OF v this] cs1 ok(3) show ?thesis
      by simp
  qed
qed

lemma run_effects_iteration2:
  "notify_iteration n es s r s' cs \<Longrightarrow> \<forall>e\<in>set es. e < length (effects s)
   \<Longrightarrow> run_effects (exec n) es s = Some (r, s', cs)"
proof (induction rule: notify_iteration.induct)
  case (finished s)
  show ?case by simp
next
  case (thrown e s x s1 sub es)
  then show ?case
    by (simp add: invoke_visit seq_def)
next
  case (visited e s v s1 sub es r s' cs)
  from visit_length [OF visited.hyps(1)] visited.prems
  have "\<forall>e\<in>set es. e < length (effects s1)"
    by auto
  from visited.IH [OF this] visited.hyps(1) visited.prems show ?case
    by (simp add: invoke_visit seq_def)
qed

lemma run_effects_iteration:
  "\<forall>e\<in>set es. e < length (effects s) \<Longrightarrow>
   run_effects (exec n) es s = Some (r, s', cs) \<longleftrightarrow> notify_iteration n es s r s' cs"
  using run_effects_iteration1 run_effects_iteration2 by blast

lemma trigger_subscribers: "trigger call t k s = run_effects call (subscribers s t k) s"
  by (simp add: trigger_def subscribers_def split: option.splits)

lemma trigger_iff_iteration:
  assumes "consistent s"
  shows "trigger (exec n) t k s = Some (r, s', cs)
           \<longleftrightarrow> notify_iteration n (subscribers s t k) s r s' cs"
  unfolding trigger_subscribers
  using consistent_member [OF assms] by (intro run_effects_iteration) blast

lemma iteration_roots:
  "notify_iteration n es s r s' cs \<Longrightarrow>
   prefix (map call_id cs) es \<and> (\<forall>v. r = Ok v \<longrightarrow> map call_id cs = es)
   \<and> (\<forall>x. r = Exn x \<longrightarrow> cs \<noteq> [])"
  by (induction rule: notify_iteration.induct) auto

text \<open>
  C7, as the code has it. In a state \<open>s\<close> of the engine, \<open>trigger\<close> does what the
  specification's \<open>notify\<close> does with the end at the first exception: it takes the
  members of the dependency set of \<open>(t, k)\<close> as they are in \<open>s\<close>, before any of them is
  invoked, and visits that list in order, whatever the visits do to the live set. Visiting
  a subscriber is calling its scheduler if it has one, and \<open>run\<close> otherwise. When a visit
  throws, the exception leaves \<open>trigger\<close> and the subscribers after the thrower are not
  visited; if none throws, all of them are.
\<close>

theorem trigger_notify_iteration:
  assumes "consistent s"
  shows "(trigger (exec n) t k s = Some (r, s', cs)
            \<longleftrightarrow> notify_iteration n (subscribers s t k) s r s' cs)
       \<and> (trigger (exec n) t k s = Some (r, s', cs) \<longrightarrow>
            prefix (map call_id cs) (subscribers s t k)
            \<and> (\<forall>v. r = Ok v \<longrightarrow> map call_id cs = subscribers s t k)
            \<and> (\<forall>x. r = Exn x \<longrightarrow> cs \<noteq> []))"
  using trigger_iff_iteration [OF assms, of n t k r s' cs]
    iteration_roots [of n "subscribers s t k" s r s' cs]
  by blast

lemma consistent_mutate_written: "consistent mutate_written"
proof -
  have "outcome (exec 12 (mutate_setup (\<lambda>p. Ret Undefined)) init) = Some (Ok Undefined, [])"
    by code_simp
  from consistent_exec [OF result_split [OF this]] have "consistent mutate_state"
    by (simp add: mutate_state_def)
  then show ?thesis
    unfolding mutate_written_def by (rule consistent_same_graph) simp
qed

theorem trigger_notify_iteration_witness:
  "subscribers mutate_written 0 ''count'' = [0, 1, 2]
   \<and> notify_iteration 6 [0, 1, 2] mutate_written (Ok Undefined)
        (final (trigger (exec 6) 0 ''count'' mutate_written))
        [Call Ran 0 [], Call Ran 1 [], Call Scheduled 2 []]
   \<and> subscribers (final (trigger (exec 6) 0 ''count'' mutate_written)) 0 ''count'' = [0, 2, 3]"
proof -
  have o: "outcome (trigger (exec 6) 0 ''count'' mutate_written)
             = Some (Ok Undefined, [Call Ran 0 [], Call Ran 1 [], Call Scheduled 2 []])"
    by code_simp
  have b: "subscribers mutate_written 0 ''count'' = [0, 1, 2]"
    by code_simp
  have a: "subscribers (final (trigger (exec 6) 0 ''count'' mutate_written)) 0 ''count'' = [0, 2, 3]"
    by code_simp
  from trigger_notify_iteration [OF consistent_mutate_written, of 6 0 "''count''"]
    result_split [OF o] a b
  show ?thesis by simp
qed

text \<open>
  C7 as stated fails: not each subscriber in the snapshot is scheduled or run. Effects
  \<open>0\<close> and \<open>1\<close> of \<open>sched_throw_state\<close> are in the set of \<open>count\<close>. \<open>trigger\<close>
  calls the scheduler of effect \<open>0\<close>, which throws; the exception leaves \<open>trigger\<close>, and
  effect \<open>1\<close>, which has no scheduler, is not run.
\<close>

theorem trigger_each_counterexample:
  "subscribers sched_throw_state 0 ''count'' = [0, 1]
   \<and> kind_of (effects sched_throw_state) 0 = Scheduled
   \<and> kind_of (effects sched_throw_state) 1 = Ran
   \<and> outcome (trigger (exec 4) 0 ''count'' sched_throw_state)
       = Some (Exn (Str ''boom''), [Call Scheduled 0 []])"
  by code_simp

section \<open>Writing through the Proxy\<close>

lemma subscribers_write_prop [simp]: "subscribers (write_prop t' k' v s) t k = subscribers s t k"
  by (simp add: subscribers_def write_prop_def split: option.splits)

lemma read_write_prop [simp]: "read_prop (write_prop t k v s) t k = v"
  by (simp add: read_prop_def write_prop_def)





text \<open>
  An inherited key: the object of \<open>inherited_prog\<close> has no property \<open>toString\<close> of its
  own, \<open>p.toString\<close> reads the built-in function, and \<open>p.toString = undefined\<close> stores a
  different value, so the effect that read the key runs again.
\<close>

lemma inherited_key_write_triggers:
  "outcome (exec 8 inherited_prog init) = Some (Ok Undefined, [Call Ran 0 []])
   \<and> read_prop init 0 ''toString'' = Builtin ''toString''
   \<and> read_prop (final (exec 8 inherited_prog init)) 0 ''toString'' = Undefined"
  by code_simp


section \<open>A run does not remove subscriptions\<close>

lemma track_subscribes:
  assumes "activeEffect s = Some a"
  shows "a \<in> set (subscribers (track t k s) t k)"
proof (cases "dep_of s t k")
  case None
  then have "targetMap s t = None \<or> (\<exists>m. targetMap s t = Some m \<and> m k = None)"
    by (auto simp: dep_of_def split: option.splits)
  then show ?thesis
    using assms
    by (auto simp: track_def get_depsMap_def get_dep_def add_dep_def subscribers_def)
next
  case (Some d)
  then obtain m where "targetMap s t = Some m" "m k = Some d"
    by (auto simp: dep_of_def split: option.splits)
  then show ?thesis
    using assms
    by (auto simp: track_def get_depsMap_def get_dep_def add_dep_def subscribers_def)
qed

lemma keeps_subscription:
  assumes "consistent s" and "e \<in> set (subscribers s t k)"
  shows "\<exists>d. subscribed e t k d s"
proof -
  from assms(2) obtain d where "dep_of s t k = Some d" and "e \<in> set (sets s d)"
    by (auto simp: subscribers_dep_of)
  with assms(1) have "subscribed e t k d s"
    by (auto simp: subscribed_def consistent_def)
  then show ?thesis ..
qed

lemma subscribed_active:
  "subscribed e t k d s \<Longrightarrow> active (effects s ! e) \<Longrightarrow> e \<in> set (subscribers s t k)"
  by (auto simp: subscribed_def subscribers_dep_of)

text \<open>
  C1, as the code has it. \<open>run\<close> performs no cleanup. If effect \<open>e\<close> is a subscriber of
  \<open>(t, k)\<close> before a run of \<open>e\<close>, or before any computation \<open>p\<close> (one that writes and so
  triggers the run), and \<open>e\<close> is still active afterwards, then \<open>e\<close> is a subscriber of
  \<open>(t, k)\<close> afterwards, whether the run read \<open>k\<close> or not. And a key that is read through
  a Proxy while \<open>e\<close> is the running effect is one more subscription of \<open>e\<close>, kept in the
  same way to the end of the computation.
\<close>

theorem run_keeps_subscriptions:
  assumes "consistent s"
  shows "(e \<in> set (subscribers s t k) \<longrightarrow> run (exec n) e s = Some (r, s', cs)
            \<longrightarrow> active (effects s' ! e) \<longrightarrow> e \<in> set (subscribers s' t k))
       \<and> (e \<in> set (subscribers s t k) \<longrightarrow> exec n p s = Some (r, s', cs)
            \<longrightarrow> active (effects s' ! e) \<longrightarrow> e \<in> set (subscribers s' t k))
       \<and> (activeEffect s = Some e \<longrightarrow> k \<noteq> IS_REACTIVE
            \<longrightarrow> exec (Suc n) (Get (Prx px t) k c) s = Some (r, s', cs)
            \<longrightarrow> active (effects s' ! e) \<longrightarrow> e \<in> set (subscribers s' t k))"
proof (intro conjI impI)
  assume m: "e \<in> set (subscribers s t k)" and r: "run (exec n) e s = Some (r, s', cs)"
    and a: "active (effects s' ! e)"
  from keeps_subscription [OF assms m] obtain d where sub: "subscribed e t k d s"
    by blast
  have "ok (subscribed e t k d) UNIV (run (exec n) e s)"
    by (rule run_ok [OF subscribed_preserved exec_good [OF subscribed_preserved] sub])
  with r have "subscribed e t k d s'"
    by (simp add: ok_def)
  then show "e \<in> set (subscribers s' t k)"
    using a by (rule subscribed_active)
next
  assume m: "e \<in> set (subscribers s t k)" and r: "exec n p s = Some (r, s', cs)"
    and a: "active (effects s' ! e)"
  from keeps_subscription [OF assms m] obtain d where sub: "subscribed e t k d s"
    by blast
  from exec_ok [OF subscribed_preserved sub r] have "subscribed e t k d s'"
    by simp
  then show "e \<in> set (subscribers s' t k)"
    using a by (rule subscribed_active)
next
  assume ae: "activeEffect s = Some e" and k: "k \<noteq> IS_REACTIVE"
    and r: "exec (Suc n) (Get (Prx px t) k c) s = Some (r, s', cs)"
    and a: "active (effects s' ! e)"
  let ?s1 = "track t k s"
  from r k have r1: "exec n (c (read_prop ?s1 t k)) ?s1 = Some (r, s', cs)"
    by (simp add: proxy_get_def Let_def)
  have c1: "consistent ?s1"
    using assms by (rule consistent_track)
  have m1: "e \<in> set (subscribers ?s1 t k)"
    using ae by (rule track_subscribes)
  from keeps_subscription [OF c1 m1] obtain d where sub: "subscribed e t k d ?s1"
    by blast
  from exec_ok [OF subscribed_preserved sub r1] have "subscribed e t k d s'"
    by simp
  then show "e \<in> set (subscribers s' t k)"
    using a by (rule subscribed_active)
qed

lemma consistent_branch_state2: "consistent branch_state2"
proof -
  have "outcome (exec 6 (branch_setup (\<lambda>p. Ret Undefined)) init) = Some (Ok Undefined, [])"
    by code_simp
  from consistent_exec [OF result_split [OF this]] have "consistent branch_state"
    by (simp add: branch_state_def)
  with preserved_same [OF consistent_preserved, of branch_state branch_state2] show ?thesis
    by (simp add: branch_state2_def)
qed

theorem run_keeps_subscriptions_witness:
  "0 \<in> set (subscribers branch_state2 0 ''a'')
   \<and> outcome (run (exec 3) 0 branch_state2) = Some (Ok (Num 2), [])
   \<and> active (effects (final (run (exec 3) 0 branch_state2)) ! 0)
   \<and> 0 \<in> set (subscribers (final (run (exec 3) 0 branch_state2)) 0 ''a'')"
proof -
  have m: "0 \<in> set (subscribers branch_state2 0 ''a'')"
    by code_simp
  have o: "outcome (run (exec 3) 0 branch_state2) = Some (Ok (Num 2), [])"
    by code_simp
  have a: "active (effects (final (run (exec 3) 0 branch_state2)) ! 0)"
    by code_simp
  from run_keeps_subscriptions [OF consistent_branch_state2, of 0 0 "''a''" 3 "Ok (Num 2)" _ "[]"]
    result_split [OF o] a m o
  show ?thesis by simp
qed

text \<open>
  C1 as stated fails. The first run of the effect of \<open>branch_prog\<close> reads \<open>flag\<close> and
  \<open>a\<close>; the second run, made by \<open>p.flag = false\<close>, reads \<open>flag\<close> and \<open>b\<close>. After it
  the effect is still in the dependency set of \<open>a\<close>, and the write \<open>p.a = 7\<close> runs it
  once more.
\<close>

theorem stale_subscription_counterexample:
  "subscribers branch_state 0 ''flag'' = [0] \<and> subscribers branch_state 0 ''a'' = [0]
   \<and> subscribers branch_state 0 ''b'' = []
   \<and> outcome (run (exec 3) 0 branch_state2) = Some (Ok (Num 2), [])
   \<and> subscribers (final (run (exec 3) 0 branch_state2)) 0 ''b'' = [0]
   \<and> subscribers (final (run (exec 3) 0 branch_state2)) 0 ''a'' = [0]
   \<and> outcome (exec 12 branch_prog init) = Some (Ok Undefined, [Call Ran 0 [], Call Ran 0 []])
   \<and> subscribers (final (exec 12 branch_prog init)) 0 ''a'' = [0]"
  by code_simp

section \<open>stop\<close>

text \<open>
  \<open>stop\<close> called on an active effect \<open>e\<close> that is not the running effect, as a call
  from outside the effect's run is. Then \<open>e\<close> is in no dependency set; a second
  \<open>stop\<close> changes nothing; the runner is the call of the user function in the state as
  it is, and leaves \<open>e\<close> in no dependency set; and in any computation \<open>p\<close> that
  follows, whatever it writes and calls, \<open>trigger\<close> never invokes \<open>e\<close>, through
  \<open>run\<close> or through a scheduler, and at its end \<open>e\<close> is stopped, not the running
  effect and in no dependency set (\<open>stopped\<close>), so the same holds of whatever follows
  \<open>p\<close>.
\<close>

lemma stop_outside_run:
  assumes "consistent s" and "e < length (effects s)" and "active (effects s ! e)"
    and "activeEffect s \<noteq> Some e"
  shows "(\<forall>d. e \<notin> set (sets (stop e s) d))
       \<and> stop e (stop e s) = stop e s
       \<and> run (exec n) e (stop e s) = exec n (fn (effects s ! e)) (stop e s)
       \<and> (run (exec n) e (stop e s) = Some (r, s', cs) \<longrightarrow> (\<forall>d. e \<notin> set (sets s' d)))
       \<and> (exec n p (stop e s) = Some (r, s', cs) \<longrightarrow> e \<notin> forest_ids cs \<and> stopped e s')"
proof -
  have st: "stopped e (stop e s)"
    by (rule stop_stopped [OF assms(1,2,4,3)])
  then have 1: "\<forall>d. e \<notin> set (sets (stop e s) d)"
    and in_range: "e < length (effects (stop e s))"
    and inactive: "\<not> active (effects (stop e s) ! e)"
    by (simp_all add: stopped_def)
  from inactive have 2: "stop e (stop e s) = stop e s"
    by (simp add: stop_def)
  have "fn (effects (stop e s) ! e) = fn (effects s ! e)"
    using assms(2,3) by (simp add: effects_stop)
  with in_range inactive
  have 3: "run (exec n) e (stop e s) = exec n (fn (effects s ! e)) (stop e s)"
    by (simp add: run_def)
  have "ok (stopped e) (- {e}) (run (exec n) e (stop e s))"
    by (rule run_ok [OF stopped_preserved exec_good [OF stopped_preserved] st])
  then have 4: "run (exec n) e (stop e s) = Some (r, s', cs) \<longrightarrow> (\<forall>d. e \<notin> set (sets s' d))"
    by (auto simp: ok_def stopped_def)
  have "ok (stopped e) (- {e}) (exec n p (stop e s))"
    by (rule goodD [OF exec_good [OF stopped_preserved] st])
  then have 5: "exec n p (stop e s) = Some (r, s', cs) \<longrightarrow> e \<notin> forest_ids cs \<and> stopped e s'"
    by (auto simp: ok_def)
  from 1 2 3 4 5 show ?thesis by blast
qed

lemma stop_outside_run_example:
  "subscribers count_state 0 ''count'' = [0]
   \<and> subscribers (stop 0 count_state) 0 ''count'' = []
   \<and> (\<forall>d. 0 \<notin> set (sets (stop 0 count_state) d))
   \<and> stop 0 (stop 0 count_state) = stop 0 count_state
   \<and> outcome (exec 4 (write_count 1) (stop 0 count_state)) = Some (Ok Undefined, [])
   \<and> stopped 0 (final (exec 4 (write_count 1) (stop 0 count_state)))
   \<and> outcome (run (exec 2) 0 (stop 0 count_state)) = Some (Ok (Num 0), [])"
proof -
  have 1: "0 < length (effects count_state)" and 2: "active (effects count_state ! 0)"
    and 3: "activeEffect count_state \<noteq> Some 0"
    and 4: "subscribers count_state 0 ''count'' = [0]"
    and 5: "subscribers (stop 0 count_state) 0 ''count'' = []"
    by code_simp+
  have o: "outcome (exec 4 (write_count 1) (stop 0 count_state)) = Some (Ok Undefined, [])"
    by code_simp
  have h: "outcome (run (exec 2) 0 (stop 0 count_state)) = Some (Ok (Num 0), [])"
    by code_simp
  from stop_outside_run [OF consistent_count_state 1 2 3, of 4 "Ok Undefined" _ "[]" "write_count 1"]
    result_split [OF o] 4 5 o h
  show ?thesis by simp
qed

text \<open>
  C5 fails on the code when \<open>stop\<close> is called from inside the effect's own run.
  \<open>stop\<close> sets \<open>active\<close> and empties the sets, and leaves \<open>activeEffect\<close> as it is:
  the effect is still the running effect, and the read that follows in the same run makes
  \<open>track\<close> put it back into the dependency set. After \<open>p.count = 1\<close> the effect of
  \<open>self_stop_prog\<close> is stopped and yet a member of the set of \<open>count\<close>, and the next
  write, \<open>p.count = 2\<close>, runs it.
\<close>

theorem self_stop_resubscribes:
  "outcome (exec 12 self_stop_prog init) = Some (Ok Undefined, [Call Ran 0 []])
   \<and> \<not> active (effects self_stop_state ! 0)
   \<and> subscribers self_stop_state 0 ''count'' = [0]
   \<and> outcome (proxy_set (exec 4) 0 ''count'' (Num 2) self_stop_state)
       = Some (Ok (Bool True), [Call Ran 0 []])"
  by code_simp

section \<open>An effect that writes the key it reads\<close>

lemma object_prototype_marker: "object_prototype ''__v_isReactive'' = None"
  by (simp add: object_prototype_def)

lemma heap_track [simp]: "heap (track t k s) = heap s"
  by (cases "activeEffect s"; cases "targetMap s t")
     (auto simp: track_def get_depsMap_def get_dep_def add_dep_def split: option.splits)

lemma seq_None [simp]: "seq None f = None"
  by (simp add: seq_def)

lemma loop_inv_track:
  assumes "loop_inv s" and "activeEffect s = Some 0"
  shows "loop_inv (track 0 ''count'' s) \<and> subscribers (track 0 ''count'' s) 0 ''count'' = [0]"
proof -
  from track_decomp [OF assms(2), of 0 "''count''"] obtain s2 d where
    tr: "track 0 ''count'' s = add_dep 0 d s2" and e2: "effects s2 = effects s"
    and st: "sets s2 = sets s \<or> sets s2 = (sets s)(nsets s := [])"
    by blast
  have dep: "dep_of (track 0 ''count'' s) 0 ''count''
               = (case dep_of s 0 ''count'' of None \<Rightarrow> Some (nsets s) | Some d' \<Rightarrow> Some d')"
    using assms(2) by (simp add: dep_of_track split: option.splits)
  have ef: "0 < length (effects (track 0 ''count'' s))
            \<and> active (effects (track 0 ''count'' s) ! 0)
            \<and> scheduler (effects (track 0 ''count'' s) ! 0) = None
            \<and> fn (effects (track 0 ''count'' s) ! 0) = loop_fn (Prx 0 0)"
    using assms(1) e2 unfolding tr by (auto simp: loop_inv_def effects_add_dep)
  have member: "sets (track 0 ''count'' s) d' = [0]"
    if "dep_of (track 0 ''count'' s) 0 ''count'' = Some d'" for d'
  proof (cases "dep_of s 0 ''count''")
    case None
    with that dep have d': "d' = nsets s" by simp
    from None assms(2) have "targetMap s 0 = None \<or> (\<exists>m. targetMap s 0 = Some m \<and> m ''count'' = None)"
      by (auto simp: dep_of_def split: option.splits)
    then show ?thesis
      using assms(2) unfolding d'
      by (auto simp: track_def get_depsMap_def get_dep_def add_dep_def)
  next
    case (Some d0)
    with that dep have d': "d' = d0" by simp
    from Some assms(1) have s0: "sets s d0 = [0]"
      by (simp add: loop_inv_def)
    from Some obtain m where "targetMap s 0 = Some m" "m ''count'' = Some d0"
      by (auto simp: dep_of_def split: option.splits)
    then show ?thesis
      using assms(2) s0 unfolding d'
      by (auto simp: track_def get_depsMap_def get_dep_def add_dep_def)
  qed
  have inv: "loop_inv (track 0 ''count'' s)"
    unfolding loop_inv_def using ef assms(1) member dep
    by (auto simp: loop_inv_def split: option.splits)
  from dep obtain d' where "dep_of (track 0 ''count'' s) 0 ''count'' = Some d'"
    by (cases "dep_of s 0 ''count''") auto
  with member have "subscribers (track 0 ''count'' s) 0 ''count'' = [0]"
    by (auto simp: subscribers_def dep_of_def split: option.splits)
  with inv show ?thesis by simp
qed

lemma loop_inv_write: "loop_inv s \<Longrightarrow> loop_inv (write_prop 0 ''count'' (Num j) s)"
  by (auto simp: loop_inv_def write_prop_def dep_of_def split: option.splits)

lemma trigger_single:
  assumes "subscribers s t k = [e]" and "e < length (effects s)"
    and "scheduler (effects s ! e) = None" and "run call e s = None"
  shows "trigger call t k s = None"
proof -
  from assms(1) obtain d where "dep_of s t k = Some d" and "sets s d = [e]"
    by (cases "targetMap s t"; cases "dep_of s t k") (auto simp: subscribers_def dep_of_def)
  then have "trigger call t k s = run_effects call [e] s"
    by (auto simp: trigger_def dep_of_def split: option.splits)
  also have "\<dots> = None"
    using assms(2-4) by (simp add: invoke_def)
  finally show ?thesis .
qed

lemma loop_run_None: "loop_inv s \<Longrightarrow> run (exec n) 0 s = None"
proof (induction n arbitrary: s rule: less_induct)
  case (less n)
  let ?sa = "s\<lparr>activeEffect := Some 0\<rparr>"
  have inv_a: "loop_inv ?sa"
    using less.prems by (auto simp: loop_inv_def dep_of_def split: option.splits)
  have body: "exec n (loop_fn (Prx 0 0)) ?sa = None"
  proof (cases n)
    case 0
    then show ?thesis by simp
  next
    case (Suc m)
    let ?s1 = "track 0 ''count'' ?sa"
    from loop_inv_track [OF inv_a] have inv1: "loop_inv ?s1"
      and sub1: "subscribers ?s1 0 ''count'' = [0]"
      by simp_all
    from inv1 obtain i where i: "read_prop ?s1 0 ''count'' = Num i"
      by (auto simp: loop_inv_def read_prop_def)
    have step1: "exec n (loop_fn (Prx 0 0)) ?sa
                   = exec m (Put (Prx 0 0) ''count'' (Num (i + 1)) (Ret Undefined)) ?s1"
      using i by (simp add: Suc loop_fn_def proxy_get_def IS_REACTIVE_def Let_def)
    show ?thesis
    proof (cases m)
      case 0
      with step1 show ?thesis by simp
    next
      case (Suc m')
      let ?s2 = "write_prop 0 ''count'' (Num (i + 1)) ?s1"
      have inv2: "loop_inv ?s2"
        using inv1 by (rule loop_inv_write)
      have "m' < n"
        using Suc \<open>n = Suc m\<close> by simp
      from less.IH [OF this inv2] have "run (exec m') 0 ?s2 = None" .
      moreover from inv2 have "0 < length (effects ?s2)" "scheduler (effects ?s2 ! 0) = None"
        by (simp_all add: loop_inv_def)
      moreover from sub1 have "subscribers ?s2 0 ''count'' = [0]"
        by simp
      ultimately have "trigger (exec m') 0 ''count'' ?s2 = None"
        by (intro trigger_single)
      then have "proxy_set (exec m') 0 ''count'' (Num (i + 1)) ?s1 = None"
        using i by (simp add: proxy_set_def Let_def strict_eq_def)
      with step1 show ?thesis
        by (simp add: Suc)
    qed
  qed
  from less.prems have "0 < length (effects s)" "active (effects s ! 0)"
    "fn (effects s ! 0) = loop_fn (Prx 0 0)"
    by (simp_all add: loop_inv_def)
  with body show ?case
    by (simp add: run_def)
qed

text \<open>
  C3 fails on the code. Registering the effect \<open>() => { p.count++ }\<close> does not return:
  its first run writes \<open>count\<close>, \<open>trigger\<close> finds the effect in the set and runs it
  again, the second run writes again, and so on without bound. No amount of fuel
  suffices.
\<close>

theorem loop_prog_diverges: "exec n loop_prog init = None"
proof -
  define s0 where "s0 = init\<lparr>heap := (heap init)(0 := map_of (rev [(''count'', Num 0)])), nobj := Suc 0\<rparr>"
  define s1 where "s1 = s0\<lparr>reactiveMap := (reactiveMap s0)(0 \<mapsto> 0), nprx := Suc 0\<rparr>"
  define s2 where "s2 = new_effect (loop_fn (Prx 0 0)) None s1"
  have r: "reactive (Obj 0) s0 = (Prx 0 0, s1)"
    by (simp add: s0_def s1_def reactive_def init_def read_prop_def IS_REACTIVE_def
          object_prototype_marker)
  have len: "length (effects s1) = 0"
    by (simp add: s1_def s0_def init_def)
  have "loop_inv s2"
    by (simp add: loop_inv_def s2_def s1_def s0_def new_effect_def init_def dep_of_def)
  then have run_None: "run (exec m) 0 s2 = None" for m
    by (rule loop_run_None)
  have e1: "exec (Suc m) loop_prog init = exec m (Reactive (Obj 0) (\<lambda>p.
              Effect (loop_fn p) (\<lambda>_. Ret Undefined))) s0" for m
    by (simp add: loop_prog_def s0_def init_def)
  have e2: "exec (Suc m) (Reactive (Obj 0) (\<lambda>p. Effect (loop_fn p) (\<lambda>_. Ret Undefined))) s0
              = exec m (Effect (loop_fn (Prx 0 0)) (\<lambda>_. Ret Undefined)) s1" for m
    by (simp add: r)
  have e3: "exec (Suc m) (Effect (loop_fn (Prx 0 0)) (\<lambda>_. Ret Undefined)) s1 = None" for m
    using run_None [of m] by (simp add: len s2_def)
  show ?thesis
  proof (cases n)
    case 0
    then show ?thesis by simp
  next
    case n1: (Suc n1)
    show ?thesis
    proof (cases n1)
      case 0
      with n1 show ?thesis by (simp add: e1 del: exec.simps(2)) 
    next
      case n2: (Suc n2)
      show ?thesis
      proof (cases n2)
        case 0
        with n1 n2 show ?thesis by (simp add: e1 e2 del: exec.simps(2))
      next
        case (Suc n3)
        with n1 n2 show ?thesis by (simp add: e1 e2 e3 del: exec.simps(2))
      qed
    qed
  qed
qed

section \<open>Fuel and the repository's test\<close>

lemma seq_mono:
  assumes "seq m f = Some x"
    and "\<And>y. m = Some y \<Longrightarrow> m' = Some y"
    and "\<And>v s y. f v s = Some y \<Longrightarrow> f' v s = Some y"
  shows "seq m' f' = Some x"
proof -
  obtain r s' cs where x: "x = (r, s', cs)"
    by (cases x)
  from assms(1) [unfolded x] show ?thesis
  proof (cases rule: seq_cases)
    case (exn e)
    from assms(2) [OF exn(1)] exn(2) x show ?thesis
      by (simp add: seq_def)
  next
    case (ok v s1 cs1 cs2)
    from assms(2) [OF ok(1)] assms(3) [OF ok(2)] ok(3) x show ?thesis
      by (simp add: seq_def)
  qed
qed

lemma le_callD: "le_call c c' \<Longrightarrow> c p s = Some x \<Longrightarrow> c' p s = Some x"
  by (cases x) (simp add: le_call_def)

lemma run_mono:
  assumes "le_call c c'" and "run c e s = Some x"
  shows "run c' e s = Some x"
proof (cases "e < length (effects s) \<and> active (effects s ! e)")
  case False
  with assms show ?thesis
    by (auto simp: run_def dest: le_callD)
next
  case True
  with assms(2) obtain r s1 cs where
    "c (fn (effects s ! e)) (s\<lparr>activeEffect := Some e\<rparr>) = Some (r, s1, cs)"
    and "x = (r, s1\<lparr>activeEffect := None\<rparr>, cs)"
    by (auto simp: run_def split: option.splits)
  with le_callD [OF assms(1)] True show ?thesis
    by (simp add: run_def)
qed

lemma invoke_mono:
  assumes "le_call c c'" and "invoke c e s = Some x"
  shows "invoke c' e s = Some x"
proof (cases "e < length (effects s)")
  case False
  with assms show ?thesis by (simp add: invoke_def)
next
  case lt: True
  show ?thesis
  proof (cases "scheduler (effects s ! e)")
    case None
    with assms(2) lt obtain r s1 cs where "run c e s = Some (r, s1, cs)"
      and "x = (r, s1, [Call Ran e cs])"
      by (auto simp: invoke_def split: option.splits)
    with run_mono [OF assms(1)] None lt show ?thesis
      by (simp add: invoke_def)
  next
    case (Some sch)
    with assms(2) lt obtain r s1 cs where "c sch s = Some (r, s1, cs)"
      and "x = (r, s1, [Call Scheduled e cs])"
      by (auto simp: invoke_def split: option.splits)
    with le_callD [OF assms(1)] Some lt show ?thesis
      by (simp add: invoke_def)
  qed
qed

lemma run_effects_mono:
  assumes "le_call c c'"
  shows "run_effects c es s = Some x \<Longrightarrow> run_effects c' es s = Some x"
proof (induction es arbitrary: s x)
  case Nil
  then show ?case by simp
next
  case (Cons e es)
  from Cons.prems show ?case
    unfolding run_effects.simps
    by (rule seq_mono) (auto intro: invoke_mono [OF assms] Cons.IH)
qed

lemma trigger_mono:
  assumes "le_call c c'" and "trigger c t k s = Some x"
  shows "trigger c' t k s = Some x"
  using assms(2) run_effects_mono [OF assms(1)]
  by (cases x) (auto simp: trigger_def split: option.splits)

lemma proxy_set_mono:
  assumes "le_call c c'" and "proxy_set c t k v s = Some x"
  shows "proxy_set c' t k v s = Some x"
proof (cases "strict_eq (read_prop s t k) v")
  case True
  with assms(2) show ?thesis by (simp add: proxy_set_def Let_def)
next
  case False
  with assms(2) have
    "seq (trigger c t k (write_prop t k v s)) (\<lambda>_ s2. Some (Ok (Bool True), s2, [])) = Some x"
    by (simp add: proxy_set_def Let_def)
  then have
    "seq (trigger c' t k (write_prop t k v s)) (\<lambda>_ s2. Some (Ok (Bool True), s2, [])) = Some x"
    by (rule seq_mono) (auto intro: trigger_mono [OF assms(1)])
  with False show ?thesis by (simp add: proxy_set_def Let_def)
qed

lemma set_prop_mono:
  assumes "le_call c c'" and "set_prop c x k v s = Some y"
  shows "set_prop c' x k v s = Some y"
  using assms(2) proxy_set_mono [OF assms(1)] by (cases x) auto

lemma exec_node_mono:
  assumes le: "le_call c c'" and "exec_node c p s = Some x"
  shows "exec_node c' p s = Some x"
proof (cases p)
  case (Get y k d)
  with assms(2) show ?thesis
    by (cases "get_prop y k s") (auto split: res.splits dest: le_callD [OF le])
next
  case (Put y k v d)
  from assms(2) show ?thesis
    unfolding Put exec_node.simps
    by (rule seq_mono) (auto intro: set_prop_mono [OF le] le_callD [OF le])
next
  case (Reactive y d)
  with assms(2) show ?thesis
    by (cases "reactive y s") (auto dest: le_callD [OF le])
next
  case (Effect f d)
  from assms(2) show ?thesis
    unfolding Effect exec_node.simps
    by (rule seq_mono) (auto intro: run_mono [OF le] le_callD [OF le])
next
  case (Run e d)
  from assms(2) show ?thesis
    unfolding Run exec_node.simps
    by (rule seq_mono) (auto intro: run_mono [OF le] le_callD [OF le])
qed (use assms(2) in \<open>auto dest: le_callD [OF le] split: if_splits\<close>)

lemma exec_Suc_mono: "le_call (exec n) (exec (Suc n))"
proof (induction n)
  case 0
  show ?case by (simp add: le_call_def)
next
  case (Suc n)
  show ?case
    unfolding le_call_def
  proof (intro allI impI)
    fix p s x
    assume "exec (Suc n) p s = Some x"
    then have "exec_node (exec n) p s = Some x" by simp
    from exec_node_mono [OF Suc this] show "exec (Suc (Suc n)) p s = Some x" by simp
  qed
qed

text \<open>
  A computation that completes with some fuel completes with any larger fuel, in the same
  state and with the same result.
\<close>

lemma exec_mono: "n \<le> m \<Longrightarrow> exec n p s = Some x \<Longrightarrow> exec m p s = Some x"
proof (induction m)
  case 0
  then show ?case by simp
next
  case (Suc m)
  show ?case
  proof (cases "n = Suc m")
    case True
    with Suc.prems show ?thesis by simp
  next
    case False
    with Suc.prems have "n \<le> m" by simp
    from Suc.IH [OF this Suc.prems(2)] have "exec m p s = Some x" .
    with exec_Suc_mono [of m] show ?thesis
      unfolding le_call_def by blast
  qed
qed

text \<open>
  The model passes the repository's test: the effect has run once at registration
  (\<open>dummy\<close> is \<open>0\<close>) and once more after \<open>observed.count = 1\<close> (\<open>dummy\<close> is \<open>1\<close>).
\<close>

lemma should_be_reactive_passes:
  "outcome (exec 12 should_be_reactive init) = Some (Ok (Num 1), [Call Ran 0 []])"
  by code_simp

end
